theory Spec2Isabelle
  imports Complex_Main "HOL-Library.Monad_Syntax"
begin

section \<open>Cross-based cost aggregation (pandora/aggregation/cbca.py)\<close>

subsection \<open>Float values\<close>

text \<open>
  The rasters and the cost volume hold binary32 values. A value is a number, one of the
  two infinities, or NaN. The operations below follow the IEEE rules for the special
  values (NaN is absorbing, \<open>inf - inf\<close> and \<open>inf * 0\<close> are NaN, a comparison with NaN is
  false); on numbers they are the exact operations, rounding is not represented.
\<close>

datatype f32 = Num real | PInf | NInf | NaN

fun isnan :: "f32 \<Rightarrow> bool" where
  "isnan NaN = True"
| "isnan _ = False"

fun isfinite :: "f32 \<Rightarrow> bool" where
  "isfinite (Num _) = True"
| "isfinite _ = False"

fun fneg :: "f32 \<Rightarrow> f32" where
  "fneg (Num a) = Num (- a)"
| "fneg PInf = NInf"
| "fneg NInf = PInf"
| "fneg NaN = NaN"

fun fadd :: "f32 \<Rightarrow> f32 \<Rightarrow> f32" where
  "fadd NaN _ = NaN"
| "fadd _ NaN = NaN"
| "fadd (Num a) (Num b) = Num (a + b)"
| "fadd (Num _) PInf = PInf"
| "fadd (Num _) NInf = NInf"
| "fadd PInf (Num _) = PInf"
| "fadd NInf (Num _) = NInf"
| "fadd PInf PInf = PInf"
| "fadd NInf NInf = NInf"
| "fadd PInf NInf = NaN"
| "fadd NInf PInf = NaN"

definition fsub :: "f32 \<Rightarrow> f32 \<Rightarrow> f32" where
  "fsub a b = fadd a (fneg b)"

fun fabs :: "f32 \<Rightarrow> f32" where
  "fabs (Num a) = Num \<bar>a\<bar>"
| "fabs PInf = PInf"
| "fabs NInf = PInf"
| "fabs NaN = NaN"

fun fsign :: "f32 \<Rightarrow> int" where
  "fsign (Num a) = (if a < 0 then -1 else if a = 0 then 0 else 1)"
| "fsign PInf = 1"
| "fsign NInf = -1"
| "fsign NaN = 0"

definition finf :: "int \<Rightarrow> f32" where
  "finf s = (if s < 0 then NInf else if s = 0 then NaN else PInf)"

fun fmul :: "f32 \<Rightarrow> f32 \<Rightarrow> f32" where
  "fmul NaN _ = NaN"
| "fmul _ NaN = NaN"
| "fmul (Num a) (Num b) = Num (a * b)"
| "fmul a b = finf (fsign a * fsign b)"

fun fdiv :: "f32 \<Rightarrow> f32 \<Rightarrow> f32" where
  "fdiv NaN _ = NaN"
| "fdiv _ NaN = NaN"
| "fdiv (Num a) (Num b) = (if b = 0 then finf (fsign (Num a)) else Num (a / b))"
| "fdiv (Num _) _ = Num 0"
| "fdiv a (Num b) = finf (fsign a * (if b < 0 then -1 else 1))"
| "fdiv _ _ = NaN"

fun fge :: "f32 \<Rightarrow> f32 \<Rightarrow> bool" where
  "fge NaN _ = False"
| "fge _ NaN = False"
| "fge PInf _ = True"
| "fge _ NInf = True"
| "fge NInf _ = False"
| "fge _ PInf = False"
| "fge (Num a) (Num b) = (b \<le> a)"


subsection \<open>Arrays and Python indexing\<close>

text \<open>
  A two-dimensional array is the list of its rows; \<open>nrows\<close> and \<open>ncols\<close> are its
  \<open>shape\<close>. Loop variables and index arithmetic are Python integers.
\<close>

type_synonym raster = "f32 list list"

definition nrows :: "'a list list \<Rightarrow> nat" where
  "nrows m = length m"

definition ncols :: "'a list list \<Rightarrow> nat" where
  "ncols m = (case m of [] \<Rightarrow> 0 | r # _ \<Rightarrow> length r)"

definition px :: "'a list list \<Rightarrow> int \<Rightarrow> int \<Rightarrow> 'a" where
  "px m y x = m ! nat y ! nat x"

text \<open>\<open>range(start, stop)\<close> and \<open>range(start, stop, -1)\<close>.\<close>

definition py_range :: "int \<Rightarrow> int \<Rightarrow> int list" where
  "py_range start stop = [start .. stop - 1]"

definition py_range_down :: "int \<Rightarrow> int \<Rightarrow> int list" where
  "py_range_down start stop = rev [stop + 1 .. start]"

definition b2i :: "bool \<Rightarrow> int" where
  "b2i b = (if b then 1 else 0)"

subsection \<open>cross_support\<close>

text \<open>
  The test that stops a walk: \<open>abs(image[y, x] - image[y, left]) >= intensity\<close>.
\<close>

definition far :: "f32 \<Rightarrow> f32 \<Rightarrow> f32 \<Rightarrow> bool" where
  "far anchor probe intensity = fge (fabs (fsub anchor probe)) intensity"

text \<open>
  One of the four \<open>for\<close> loops of a pixel. The state is the arm length counted so far
  and the loop variable, which keeps its last value after the loop: the index that
  broke the walk, the last index of the range, or its initial value \<open>x\<close> (\<open>y\<close>) when the
  range is empty.
\<close>

fun arm_walk :: "(int \<Rightarrow> f32) \<Rightarrow> f32 \<Rightarrow> f32 \<Rightarrow> int list \<Rightarrow> int \<times> int \<Rightarrow> int \<times> int" where
  "arm_walk probe anchor intensity [] (len, pos) = (len, pos)"
| "arm_walk probe anchor intensity (i # is) (len, pos) =
     (if far anchor (probe i) intensity then (len, i)
      else arm_walk probe anchor intensity is (len + 1, i))"

definition cross_pixel :: "raster \<Rightarrow> int \<Rightarrow> f32 \<Rightarrow> int \<Rightarrow> int \<Rightarrow> int list" where
  "cross_pixel img len_arms intensity y x =
     (let ny = int (nrows img); nx = int (ncols img) in
      if isfinite (px img y x) then
        (let (left_len, left) = arm_walk (\<lambda>i. px img y i) (px img y x) intensity
                                  (py_range_down (x - 1) (max (x - len_arms) (- 1))) (0, x);
             (right_len, right) = arm_walk (\<lambda>i. px img y i) (px img y x) intensity
                                  (py_range (x + 1) (min (x + len_arms) nx)) (0, x);
             (up_len, up) = arm_walk (\<lambda>i. px img i x) (px img y x) intensity
                                  (py_range_down (y - 1) (max (y - len_arms) (- 1))) (0, y);
             (bot_len, bot) = arm_walk (\<lambda>i. px img i x) (px img y x) intensity
                                  (py_range (y + 1) (min (y + len_arms) ny)) (0, y)
         in [max left_len (1 * b2i (x \<ge> 1) * b2i (isfinite (px img y left))),
             max right_len (1 * b2i (x < nx - 1) * b2i (isfinite (px img y right))),
             max up_len (1 * b2i (y \<ge> 1) * b2i (isfinite (px img up x))),
             max bot_len (1 * b2i (y < ny - 1) * b2i (isfinite (px img bot x)))])
      else [0, 0, 0, 0])"

text \<open>
  The tensor \<open>cross[y, x, :]\<close> as rows of pixels, each pixel the list
  \<open>[left, right, top, bot]\<close>.
\<close>

definition cross_support :: "raster \<Rightarrow> int \<Rightarrow> f32 \<Rightarrow> int list list list" where
  "cross_support img len_arms intensity =
     map (\<lambda>y. map (\<lambda>x. cross_pixel img len_arms intensity (int y) (int x))
                [0 ..< ncols img])
         [0 ..< nrows img]"

subsection \<open>Indexed reads and writes, loops\<close>

text \<open>
  An index into an axis of length \<open>n\<close> is valid from \<open>-n\<close> to \<open>n - 1\<close>; a negative
  index counts from the end. Any other index is an error (\<open>None\<close>).
\<close>

definition py_get :: "'a list \<Rightarrow> int \<Rightarrow> 'a option" where
  "py_get xs i =
     (let n = int (length xs); j = (if i < 0 then i + n else i)
      in if 0 \<le> j \<and> j < n then Some (xs ! nat j) else None)"

definition py_set :: "'a list \<Rightarrow> int \<Rightarrow> 'a \<Rightarrow> 'a list option" where
  "py_set xs i v =
     (let n = int (length xs); j = (if i < 0 then i + n else i)
      in if 0 \<le> j \<and> j < n then Some (xs[nat j := v]) else None)"

definition get2 :: "'a list list \<Rightarrow> int \<Rightarrow> int \<Rightarrow> 'a option" where
  "get2 m y x = do { row \<leftarrow> py_get m y; py_get row x }"

definition set2 :: "'a list list \<Rightarrow> int \<Rightarrow> int \<Rightarrow> 'a \<Rightarrow> 'a list list option" where
  "set2 m y x v = do { row \<leftarrow> py_get m y; row' \<leftarrow> py_set row x v; py_set m y row' }"

definition get3 :: "'a list list list \<Rightarrow> int \<Rightarrow> int \<Rightarrow> int \<Rightarrow> 'a option" where
  "get3 t y x k = do { row \<leftarrow> py_get t y; p \<leftarrow> py_get row x; py_get p k }"

text \<open>The slice \<open>xs[start:stop]\<close>: both bounds are wrapped once and clamped.\<close>

definition slice_bound :: "nat \<Rightarrow> int \<Rightarrow> nat" where
  "slice_bound n i = (if i < 0 then nat (max (i + int n) 0) else min (nat i) n)"

definition py_slice :: "'a list \<Rightarrow> int \<Rightarrow> int \<Rightarrow> 'a list" where
  "py_slice xs start stop =
     (let s = slice_bound (length xs) start; e = slice_bound (length xs) stop
      in take (e - s) (drop s xs))"

text \<open>\<open>np.sum(m[start:stop, x])\<close> on an array of counts.\<close>

fun column_of :: "int list list \<Rightarrow> int \<Rightarrow> int list option" where
  "column_of [] x = Some []"
| "column_of (row # rows) x =
     do { v \<leftarrow> py_get row x; vs \<leftarrow> column_of rows x; Some (v # vs) }"

definition sum_slice :: "int list list \<Rightarrow> int \<Rightarrow> int \<Rightarrow> int \<Rightarrow> int option" where
  "sum_slice m start stop x = map_option sum_list (column_of (py_slice m start stop) x)"

definition zeros :: "nat \<Rightarrow> nat \<Rightarrow> 'a::zero list list" where
  "zeros ny nx = replicate ny (replicate nx 0)"

definition fzeros :: "nat \<Rightarrow> nat \<Rightarrow> f32 list list" where
  "fzeros ny nx = replicate ny (replicate nx (Num 0))"

text \<open>
  A \<open>for\<close> loop over a list of indices whose body may fail: the loop stops at the
  first error.
\<close>

fun for_loop :: "'i list \<Rightarrow> ('i \<Rightarrow> 's \<Rightarrow> 's option) \<Rightarrow> 's \<Rightarrow> 's option" where
  "for_loop [] body s = Some s"
| "for_loop (i # is) body s =
     (case body i s of None \<Rightarrow> None | Some s' \<Rightarrow> for_loop is body s')"

subsection \<open>The four passes\<close>

text \<open>
  The support counts \<open>sum_step2\<close> and \<open>sum4\<close> are float arrays that only ever hold
  sums of arm lengths; they are integers here.
\<close>

definition cbca_step_1 :: "raster \<Rightarrow> raster option" where
  "cbca_step_1 cv =
     (let ny = nrows cv; nx = ncols cv in
      for_loop (py_range 0 (int ny)) (\<lambda>y.
        for_loop (py_range 0 (int nx)) (\<lambda>x step1.
          do { c \<leftarrow> get2 cv y x;
               prev \<leftarrow> get2 step1 y (x - 1);
               if \<not> isnan c then set2 step1 y x (fadd prev c)
               else set2 step1 y x prev }))
        (fzeros ny (nx + 1)))"

text \<open>
  Step 2 at row \<open>y\<close> and position \<open>x\<close> of \<open>range_col\<close>: first the values the
  iteration computes from its inputs (the column, the horizontal aggregate and the
  number of support pixels), then the two stores. The arrays \<open>step2\<close> and
  \<open>sum_step2\<close> have one column less than \<open>step1\<close>; their allocation fails when
  \<open>step1\<close> has rows and no column. Likewise \<open>step4\<close> has one row less than
  \<open>step3\<close>, and \<open>step3\<close> needs the first row of \<open>step2\<close>.
\<close>

definition step2_cell ::
  "raster \<Rightarrow> int list list list \<Rightarrow> int list list list \<Rightarrow> int list \<Rightarrow> int list \<Rightarrow>
   int \<Rightarrow> int \<Rightarrow> (int \<times> f32 \<times> int) option" where
  "step2_cell step1 cross_left cross_right range_col range_col_right y x =
     do { col \<leftarrow> py_get range_col x;
          col_right \<leftarrow> py_get range_col_right x;
          r1 \<leftarrow> get3 cross_left y col 1;
          r2 \<leftarrow> get3 cross_right y col_right 1;
          let right = min r1 r2;
          l1 \<leftarrow> get3 cross_left y col 0;
          l2 \<leftarrow> get3 cross_right y col_right 0;
          let left = min l1 l2;
          a \<leftarrow> get2 step1 y (col + right);
          b \<leftarrow> get2 step1 y (col - left - 1);
          Some (col, fsub a b, right + left) }"

fun step2_store ::
  "int \<Rightarrow> int \<times> f32 \<times> int \<Rightarrow> raster \<times> int list list \<Rightarrow> (raster \<times> int list list) option" where
  "step2_store y (col, v, w) (step2, sum_step2) =
     do { step2' \<leftarrow> set2 step2 y col v;
          n \<leftarrow> get2 sum_step2 y col;
          sum_step2' \<leftarrow> set2 sum_step2 y col (n + w);
          Some (step2', sum_step2') }"

definition cbca_step_2 ::
  "raster \<Rightarrow> int list list list \<Rightarrow> int list list list \<Rightarrow> int list \<Rightarrow> int list \<Rightarrow>
   (raster \<times> int list list) option" where
  "cbca_step_2 step1 cross_left cross_right range_col range_col_right =
     (let ny = nrows step1; nx = ncols step1 in
      if 0 < ny \<and> nx = 0 then None
      else
        for_loop (py_range 0 (int ny)) (\<lambda>y.
          for_loop (py_range 0 (int (length range_col))) (\<lambda>x s.
            do { c \<leftarrow> step2_cell step1 cross_left cross_right range_col range_col_right y x;
                 step2_store y c s }))
          (fzeros ny (nx - 1), zeros ny (nx - 1)))"

definition cbca_step_3 :: "raster \<Rightarrow> raster option" where
  "cbca_step_3 step2 =
     (let ny = nrows step2; nx = ncols step2 in
      do { row0 \<leftarrow> py_get step2 0;
           step3 \<leftarrow> py_set (fzeros (ny + 1) nx) 0 row0;
           for_loop (py_range 1 (int ny)) (\<lambda>y.
             for_loop (py_range 0 (int nx)) (\<lambda>x step3.
               do { prev \<leftarrow> get2 step3 (y - 1) x;
                    c \<leftarrow> get2 step2 y x;
                    set2 step3 y x (fadd prev c) }))
             step3 })"

text \<open>Step 4 at row \<open>y\<close> and position \<open>x\<close> of \<open>range_col\<close>, in the same two parts.\<close>

definition step4_cell ::
  "raster \<Rightarrow> int list list list \<Rightarrow> int list list list \<Rightarrow> int list \<Rightarrow> int list \<Rightarrow>
   int \<Rightarrow> int \<Rightarrow> (int \<times> f32 \<times> int \<times> int) option" where
  "step4_cell step3 cross_left cross_right range_col range_col_right y x =
     do { col \<leftarrow> py_get range_col x;
          col_right \<leftarrow> py_get range_col_right x;
          t1 \<leftarrow> get3 cross_left y col 2;
          t2 \<leftarrow> get3 cross_right y col_right 2;
          let top = min t1 t2;
          b1 \<leftarrow> get3 cross_left y col 3;
          b2 \<leftarrow> get3 cross_right y col_right 3;
          let bot = min b1 b2;
          lo \<leftarrow> get2 step3 (y + bot) col;
          hi \<leftarrow> get2 step3 (y - top - 1) col;
          Some (col, fsub lo hi, top, bot) }"

fun step4_store ::
  "int list list \<Rightarrow> int \<Rightarrow> int \<times> f32 \<times> int \<times> int \<Rightarrow> raster \<times> int list list \<Rightarrow>
   (raster \<times> int list list) option" where
  "step4_store sum2 y (col, v, top_len, bot_len) (step4, sum4) =
     do { step4' \<leftarrow> set2 step4 y col v;
          n \<leftarrow> get2 sum4 y col;
          sum4a \<leftarrow> set2 sum4 y col (n + (top_len + bot_len));
          sum4b \<leftarrow> (if top_len \<noteq> 0
                     then do { n \<leftarrow> get2 sum4a y col;
                               s \<leftarrow> sum_slice sum2 (y - top_len) y col;
                               set2 sum4a y col (n + s) }
                     else Some sum4a);
          sum4c \<leftarrow> (if bot_len \<noteq> 0
                     then do { n \<leftarrow> get2 sum4b y col;
                               s \<leftarrow> sum_slice sum2 (y + 1) (y + bot_len + 1) col;
                               set2 sum4b y col (n + s) }
                     else Some sum4b);
          Some (step4', sum4c) }"

definition cbca_step_4 ::
  "raster \<Rightarrow> int list list \<Rightarrow> int list list list \<Rightarrow> int list list list \<Rightarrow> int list \<Rightarrow>
   int list \<Rightarrow> (raster \<times> int list list) option" where
  "cbca_step_4 step3 sum2 cross_left cross_right range_col range_col_right =
     (let ny = nrows step3; nx = ncols step3 in
      if ny = 0 then None
      else
        for_loop (py_range 0 (int (ny - 1))) (\<lambda>y.
          for_loop (py_range 0 (int (length range_col))) (\<lambda>x s.
            do { c \<leftarrow> step4_cell step3 cross_left cross_right range_col range_col_right y x;
                 step4_store sum2 y c s }))
          (fzeros (ny - 1) nx, sum2))"

text \<open>The shape of a two-dimensional array: \<open>ny\<close> rows of \<open>nx\<close> entries.\<close>

definition has_shape :: "'a list list \<Rightarrow> nat \<Rightarrow> nat \<Rightarrow> bool" where
  "has_shape m ny nx = (length m = ny \<and> list_all (\<lambda>row. length row = nx) m)"

subsection \<open>Configuration\<close>

text \<open>
  The keyword arguments of the constructor are a dictionary from option names to
  Python values. \<open>check_conf\<close> fills in the defaults and validates the dictionary
  against its schema; each schema entry is \<open>And(type, predicate)\<close>: the value must be
  an instance of the type and the predicate's result must be truthy. A key outside
  the schema is rejected.
\<close>

datatype pyval = PStr string | PFloat f32 | PInt int | PNone

datatype error = ConfigError

type_synonym config = "(string \<times> pyval) list"

definition has_key :: "config \<Rightarrow> string \<Rightarrow> bool" where
  "has_key cfg k = (map_of cfg k \<noteq> None)"

definition set_default :: "config \<Rightarrow> string \<Rightarrow> pyval \<Rightarrow> config" where
  "set_default cfg k v = (if \<not> has_key cfg k then cfg @ [(k, v)] else cfg)"

fun truthy :: "pyval \<Rightarrow> bool" where
  "truthy (PStr s) = (s \<noteq> [])"
| "truthy (PFloat v) = (v \<noteq> Num 0)"
| "truthy (PInt n) = (n \<noteq> 0)"
| "truthy PNone = False"

definition fgt :: "f32 \<Rightarrow> f32 \<Rightarrow> bool" where
  "fgt a b = (fge a b \<and> \<not> fge b a)"

text \<open>The three schema entries, in the order of the source.\<close>

fun check_aggregation_method :: "pyval \<Rightarrow> bool" where
  "check_aggregation_method (PStr x) = truthy (PStr ''cbca'')"
| "check_aggregation_method _ = False"

fun check_cbca_intensity :: "pyval \<Rightarrow> bool" where
  "check_cbca_intensity (PFloat x) = fgt x (Num 0)"
| "check_cbca_intensity _ = False"

fun check_cbca_distance :: "pyval \<Rightarrow> bool" where
  "check_cbca_distance (PInt x) = (x > 0)"
| "check_cbca_distance _ = False"

definition schema :: "(string \<times> (pyval \<Rightarrow> bool)) list" where
  "schema = [(''aggregation_method'', check_aggregation_method),
             (''cbca_intensity'', check_cbca_intensity),
             (''cbca_distance'', check_cbca_distance)]"

definition validate :: "config \<Rightarrow> bool" where
  "validate cfg =
     (list_all (\<lambda>(k, chk). case map_of cfg k of None \<Rightarrow> False | Some v \<Rightarrow> chk v) schema \<and>
      list_all (\<lambda>k. k \<in> set (map fst schema)) (map fst cfg))"

definition check_conf :: "config \<Rightarrow> error + config" where
  "check_conf cfg0 =
     (let cfg1 = set_default cfg0 ''cbca_intensity'' (PFloat (Num 30));
          cfg = set_default cfg1 ''cbca_distance'' (PInt 5)
      in if validate cfg then Inr cfg else Inl ConfigError)"

record CrossBasedCostAggregation =
  cfg :: config
  cbca_intensity :: f32
  cbca_distance :: int

definition init :: "config \<Rightarrow> error + CrossBasedCostAggregation" where
  "init cfg0 =
     (case check_conf cfg0 of
        Inl e \<Rightarrow> Inl e
      | Inr c \<Rightarrow>
          (case (map_of c ''cbca_intensity'', map_of c ''cbca_distance'') of
             (Some (PFloat t), Some (PInt l)) \<Rightarrow>
               Inr \<lparr>cfg = c, cbca_intensity = t, cbca_distance = l\<rparr>
           | _ \<Rightarrow> Inl ConfigError))"

subsection \<open>cost_volume_aggregation\<close>

text \<open>
  The cost volume dataset: the data indexed \<open>[row][col][disp]\<close>, the disparity
  coordinate and the attributes the aggregation reads or writes.
\<close>

record cv_dataset =
  cost_volume :: "f32 list list list"
  disp :: "real list"
  subpixel :: int
  cmax :: real
  aggregation :: string

definition nb_disp :: "f32 list list list \<Rightarrow> nat" where
  "nb_disp data = (case data of (cell # _) # _ \<Rightarrow> length cell | _ \<Rightarrow> 0)"

text \<open>\<open>cv['cost_volume'].data[:, :, d]\<close>\<close>

definition layer :: "f32 list list list \<Rightarrow> nat \<Rightarrow> raster" where
  "layer data d = map (map (\<lambda>cell. cell ! d)) data"

text \<open>\<open>int(r)\<close> and \<open>astype(int)\<close> truncate towards zero.\<close>

definition trunc :: "real \<Rightarrow> int" where
  "trunc r = (if 0 \<le> r then \<lfloor>r\<rfloor> else \<lceil>r\<rceil>)"

text \<open>
  The columns kept by \<open>np.where((range_col_right >= 0) & (range_col_right < width))\<close>,
  where \<open>range_col_right = range_col + disparity_range[d]\<close>.
\<close>

definition valid_index :: "nat \<Rightarrow> real \<Rightarrow> nat \<Rightarrow> nat list" where
  "valid_index nx dv width =
     filter (\<lambda>col. 0 \<le> real col + dv \<and> real col + dv < real width) [0 ..< nx]"

text \<open>
  The body of the loop over the disparities up to \<open>sum4 += 1\<close>: the aggregated layer
  \<open>step4\<close> and the normalisation denominators.
\<close>

definition aggregate_layer ::
  "int list list list \<Rightarrow> int list list list list \<Rightarrow> cv_dataset \<Rightarrow> nat \<Rightarrow>
   (raster \<times> int list list) option" where
  "aggregate_layer cross_left cross_right cv d =
     do { dv \<leftarrow> py_get (disp cv) (int d);
          let i_right = trunc (frac dv * real_of_int (subpixel cv));
          step1 \<leftarrow> cbca_step_1 (layer (cost_volume cv) d);
          cr \<leftarrow> py_get cross_right i_right;
          let valid = valid_index (ncols (cost_volume cv)) dv (ncols cr);
          let range_col = map int valid;
          let range_col_right = map (\<lambda>col. trunc (real col + dv)) valid;
          (step2, sum2) \<leftarrow> cbca_step_2 step1 cross_left cr range_col range_col_right;
          step3 \<leftarrow> cbca_step_3 step2;
          (step4, sum4) \<leftarrow> cbca_step_4 step3 sum2 cross_left cr range_col range_col_right;
          Some (step4, map (map (\<lambda>n. n + 1)) sum4) }"

text \<open>
  \<open>agg\<close> is indexed \<open>[disp][col][row]\<close>. It starts as \<open>(0 + cost) * 0\<close>; layer \<open>d\<close>
  then receives \<open>step4\<close> and is divided by the denominators.
\<close>

definition aggregate_all ::
  "int list list list \<Rightarrow> int list list list list \<Rightarrow> int \<Rightarrow> cv_dataset \<Rightarrow> cv_dataset option" where
  "aggregate_all cross_left cross_right distance cv =
     (let data = cost_volume cv;
          ny = nrows data; nx = ncols data; nd = nb_disp data;
          agg0 = map (\<lambda>d. map (\<lambda>x. map (\<lambda>y.
                    fmul (fadd (Num 0) (data ! y ! x ! d)) (Num 0)) [0 ..< ny]) [0 ..< nx]) [0 ..< nd]
      in do {
        agg \<leftarrow> for_loop [0 ..< nd] (\<lambda>d agg.
          do { (step4, sum4) \<leftarrow> aggregate_layer cross_left cross_right cv d;
               let added = map (\<lambda>x. map (\<lambda>y. fadd (agg ! d ! x ! y) (step4 ! y ! x))
                                  [0 ..< ny]) [0 ..< nx];
               let normed = map (\<lambda>x. map (\<lambda>y. fdiv (added ! x ! y)
                                             (Num (real_of_int (sum4 ! y ! x))))
                                  [0 ..< ny]) [0 ..< nx];
               Some (agg[d := normed]) }) agg0;
        Some (cv\<lparr>cost_volume := map (\<lambda>y. map (\<lambda>x. map (\<lambda>d. agg ! d ! x ! y)
                                     [0 ..< nd]) [0 ..< nx]) [0 ..< ny],
                 aggregation := ''cbca'',
                 cmax := cmax cv * real_of_int (((distance * 2) - 1) ^ 2)\<rparr>) })"

text \<open>
  \<open>left_masked\<close> and the list \<open>right_masked\<close> are the rasters that
  \<open>computes_cross_supports\<close> hands to \<open>cross_support\<close>: the left image and the shifted
  right images after masking, the median filter, the replacement of NaN by infinity
  and the trimming of the offset.
\<close>

definition cost_volume_aggregation ::
  "CrossBasedCostAggregation \<Rightarrow> raster \<Rightarrow> raster list \<Rightarrow> cv_dataset \<Rightarrow> cv_dataset option" where
  "cost_volume_aggregation self left_masked right_masked cv =
     (let cross_left = cross_support left_masked (cbca_distance self) (cbca_intensity self);
          cross_right = map (\<lambda>r. cross_support r (cbca_distance self) (cbca_intensity self))
                          right_masked
      in aggregate_all cross_left cross_right (cbca_distance self) cv)"

section \<open>Properties\<close>

subsection \<open>Arm walks\<close>


lemma arm_walk_len:
  "arm_walk p a T is (len, pos) = (len', pos') \<Longrightarrow> len \<le> len' \<and> len' \<le> len + int (length is)"
proof (induction "is" arbitrary: len pos)
  case Nil
  then show ?case by simp
next
  case (Cons i "is")
  show ?case
  proof (cases "far a (p i) T")
    case True
    with Cons.prems show ?thesis by simp
  next
    case False
    with Cons.prems have "arm_walk p a T is (len + 1, i) = (len', pos')" by simp
    from Cons.IH [OF this] show ?thesis by simp
  qed
qed

lemma length_py_range: "length (py_range a b) = nat (b - a)"
  by (simp add: py_range_def)

lemma length_py_range_down: "length (py_range_down a b) = nat (a - b)"
  by (simp add: py_range_down_def)

lemma py_range_Cons: "a < b \<Longrightarrow> py_range a b = a # py_range (a + 1) b"
  by (simp add: py_range_def upto_rec1)

lemma py_range_down_Cons: "b < a \<Longrightarrow> py_range_down a b = a # py_range_down (a - 1) b"
  by (simp add: py_range_down_def upto_rec2)

lemma py_range_empty: "b \<le> a \<Longrightarrow> py_range a b = []"
  by (simp add: py_range_def)

lemma py_range_down_empty: "a \<le> b \<Longrightarrow> py_range_down a b = []"
  by (simp add: py_range_down_def)

lemma cross_support_nth:
  "y < nrows img \<Longrightarrow> x < ncols img \<Longrightarrow>
   cross_support img L T ! y ! x = cross_pixel img L T (int y) (int x)"
  by (simp add: cross_support_def nrows_def)

lemma arm_bound:
  assumes "arm_walk p a T is (0, pos) = (len, pos')" and "int (length is) \<le> L - 1" and "0 < L"
  shows "0 \<le> max len (1 * b2i c * b2i c') \<and> max len (1 * b2i c * b2i c') \<le> L"
proof -
  from arm_walk_len [OF assms(1)] have "0 \<le> len" "len \<le> int (length is)" by simp_all
  moreover have "0 \<le> b2i c * b2i c'" "b2i c * b2i c' \<le> 1"
    by (simp_all add: b2i_def)
  ultimately show ?thesis using assms(2,3) by auto
qed

lemma cross_pixel_range:
  assumes "0 < L"
  shows "length (cross_pixel img L T y x) = 4 \<and> (\<forall>a \<in> set (cross_pixel img L T y x). 0 \<le> a \<and> a \<le> L)"
proof (cases "isfinite (px img y x)")
  case False
  with assms show ?thesis by (simp add: cross_pixel_def Let_def)
next
  case True
  obtain l1 p1 where w1: "arm_walk (\<lambda>i. px img y i) (px img y x) T
      (py_range_down (x - 1) (max (x - L) (- 1))) (0, x) = (l1, p1)" by (cases "arm_walk (\<lambda>i. px img y i) (px img y x) T
      (py_range_down (x - 1) (max (x - L) (- 1))) (0, x)")
  obtain l2 p2 where w2: "arm_walk (\<lambda>i. px img y i) (px img y x) T
      (py_range (x + 1) (min (x + L) (int (ncols img)))) (0, x) = (l2, p2)" by (cases "arm_walk (\<lambda>i. px img y i) (px img y x) T
      (py_range (x + 1) (min (x + L) (int (ncols img)))) (0, x)")
  obtain l3 p3 where w3: "arm_walk (\<lambda>i. px img i x) (px img y x) T
      (py_range_down (y - 1) (max (y - L) (- 1))) (0, y) = (l3, p3)" by (cases "arm_walk (\<lambda>i. px img i x) (px img y x) T
      (py_range_down (y - 1) (max (y - L) (- 1))) (0, y)")
  obtain l4 p4 where w4: "arm_walk (\<lambda>i. px img i x) (px img y x) T
      (py_range (y + 1) (min (y + L) (int (nrows img)))) (0, y) = (l4, p4)" by (cases "arm_walk (\<lambda>i. px img i x) (px img y x) T
      (py_range (y + 1) (min (y + L) (int (nrows img)))) (0, y)")
  have b1: "0 \<le> max l1 (1 * b2i (x \<ge> 1) * b2i (isfinite (px img y p1))) \<and>
            max l1 (1 * b2i (x \<ge> 1) * b2i (isfinite (px img y p1))) \<le> L"
    by (rule arm_bound [OF w1 _ assms]) (use assms in \<open>auto simp: length_py_range_down\<close>)
  have b2: "0 \<le> max l2 (1 * b2i (x < int (ncols img) - 1) * b2i (isfinite (px img y p2))) \<and>
            max l2 (1 * b2i (x < int (ncols img) - 1) * b2i (isfinite (px img y p2))) \<le> L"
    by (rule arm_bound [OF w2 _ assms]) (use assms in \<open>auto simp: length_py_range\<close>)
  have b3: "0 \<le> max l3 (1 * b2i (y \<ge> 1) * b2i (isfinite (px img p3 x))) \<and>
            max l3 (1 * b2i (y \<ge> 1) * b2i (isfinite (px img p3 x))) \<le> L"
    by (rule arm_bound [OF w3 _ assms]) (use assms in \<open>auto simp: length_py_range_down\<close>)
  have b4: "0 \<le> max l4 (1 * b2i (y < int (nrows img) - 1) * b2i (isfinite (px img p4 x))) \<and>
            max l4 (1 * b2i (y < int (nrows img) - 1) * b2i (isfinite (px img p4 x))) \<le> L"
    by (rule arm_bound [OF w4 _ assms]) (use assms in \<open>auto simp: length_py_range\<close>)
  have "cross_pixel img L T y x =
        [max l1 (1 * b2i (x \<ge> 1) * b2i (isfinite (px img y p1))),
         max l2 (1 * b2i (x < int (ncols img) - 1) * b2i (isfinite (px img y p2))),
         max l3 (1 * b2i (y \<ge> 1) * b2i (isfinite (px img p3 x))),
         max l4 (1 * b2i (y < int (nrows img) - 1) * b2i (isfinite (px img p4 x)))]"
    using True w1 w2 w3 w4 by (simp add: cross_pixel_def Let_def)
  with b1 b2 b3 b4 show ?thesis by simp
qed

text \<open>
  C9: for a maximal arm length \<open>len_arms > 0\<close> and any threshold, a pixel of the
  raster whose value is not finite has the cross support \<open>[0, 0, 0, 0]\<close>, and every
  other pixel has four arm lengths, each between 0 and \<open>len_arms\<close>.
\<close>

theorem cross_support_range:
  assumes "0 < len_arms" and "y < nrows img" and "x < ncols img"
  shows "(\<not> isfinite (px img (int y) (int x)) \<longrightarrow>
            cross_support img len_arms intensity ! y ! x = [0, 0, 0, 0]) \<and>
         (isfinite (px img (int y) (int x)) \<longrightarrow>
            length (cross_support img len_arms intensity ! y ! x) = 4 \<and>
            (\<forall>a \<in> set (cross_support img len_arms intensity ! y ! x). 0 \<le> a \<and> a \<le> len_arms))"
proof -
  have eq: "cross_support img len_arms intensity ! y ! x =
        cross_pixel img len_arms intensity (int y) (int x)"
    using assms(2,3) by (rule cross_support_nth)
  have "\<not> isfinite (px img (int y) (int x)) \<Longrightarrow>
        cross_pixel img len_arms intensity (int y) (int x) = [0, 0, 0, 0]"
    by (simp add: cross_pixel_def Let_def)
  with eq cross_pixel_range [OF assms(1), of img intensity "int y" "int x"]
  show ?thesis by simp
qed

theorem cross_support_range_witness:
  "(0::int) < 2 \<and> (0::nat) < nrows [[Num 1, PInf]] \<and> (1::nat) < ncols [[Num 1, PInf]] \<and>
   cross_support [[Num 1, PInf]] 2 (Num 1) ! 0 ! 1 = [0, 0, 0, 0] \<and>
   length (cross_support [[Num 1, PInf]] 2 (Num 1) ! 0 ! 0) = 4 \<and>
   0 \<le> cross_support [[Num 1, PInf]] 2 (Num 1) ! 0 ! 0 ! 1 \<and>
   cross_support [[Num 1, PInf]] 2 (Num 1) ! 0 ! 0 ! 1 \<le> 2"
proof -
  have h: "(0::int) < 2" "(0::nat) < nrows [[Num 1, PInf]]" "(1::nat) < ncols [[Num 1, PInf]]"
    "(0::nat) < ncols [[Num 1, PInf]]"
    by (simp_all add: nrows_def ncols_def)
  have a: "\<not> isfinite (px [[Num 1, PInf]] (int 0) (int 1))"
    and b: "isfinite (px [[Num 1, PInf]] (int 0) (int 0))"
    by (simp_all add: px_def)
  from cross_support_range [OF h(1) h(2) h(3), of "Num 1"] a
  have "cross_support [[Num 1, PInf]] 2 (Num 1) ! 0 ! 1 = [0, 0, 0, 0]" by blast
  moreover from cross_support_range [OF h(1) h(2) h(4), of "Num 1"] b
  have "length (cross_support [[Num 1, PInf]] 2 (Num 1) ! 0 ! 0) = 4 \<and>
    (\<forall>a \<in> set (cross_support [[Num 1, PInf]] 2 (Num 1) ! 0 ! 0). 0 \<le> a \<and> a \<le> 2)" by blast
  ultimately show ?thesis using h by simp
qed

subsection \<open>The horizontal integral of one row\<close>

lemma step1_example:
  "cbca_step_1 [[Num 3, NaN, Num 2]] = Some [[Num 3, Num 3, Num 5, Num 0]]"
  by (simp add: cbca_step_1_def nrows_def ncols_def py_range_def upto_rec1 fzeros_def
      get2_def set2_def py_get_def py_set_def)

text \<open>
  C2, as the code has it: \<open>cbca_step_1\<close> on the single row \<open>[3.0, NaN, 2.0]\<close> returns
  \<open>[3.0, 3.0, 5.0, 0]\<close>: the running sums, where the NaN entry adds nothing and the
  running total is carried over it, followed by one extra column holding 0. The extra
  column is the last one, the column that the index \<open>-1\<close> reads.
\<close>

theorem cbca_step_1_row_trailing_sentinel:
  "cbca_step_1 [[Num 3, NaN, Num 2]] = Some [[Num 3, Num 3, Num 5, Num 0]] \<and>
   get2 [[Num 3, Num 3, Num 5, Num 0]] 0 (- 1) = Some (Num 0)"
  using step1_example by (simp add: get2_def py_get_def)

text \<open>The result is not the row with a leading zero.\<close>

theorem cbca_step_1_leading_sentinel_counterexample:
  "cbca_step_1 [[Num 3, NaN, Num 2]] \<noteq> Some [[Num 0, Num 3, Num 3, Num 5]]"
  using step1_example by simp

subsection \<open>The minimum support region\<close>

lemma cross_pixel_finite:
  assumes "isfinite (px img y x)"
  shows "cross_pixel img L T y x =
    [max (fst (arm_walk (\<lambda>i. px img y i) (px img y x) T
                (py_range_down (x - 1) (max (x - L) (- 1))) (0, x)))
         (1 * b2i (x \<ge> 1) * b2i (isfinite (px img y
            (snd (arm_walk (\<lambda>i. px img y i) (px img y x) T
                (py_range_down (x - 1) (max (x - L) (- 1))) (0, x)))))),
     max (fst (arm_walk (\<lambda>i. px img y i) (px img y x) T
                (py_range (x + 1) (min (x + L) (int (ncols img)))) (0, x)))
         (1 * b2i (x < int (ncols img) - 1) * b2i (isfinite (px img y
            (snd (arm_walk (\<lambda>i. px img y i) (px img y x) T
                (py_range (x + 1) (min (x + L) (int (ncols img)))) (0, x)))))),
     max (fst (arm_walk (\<lambda>i. px img i x) (px img y x) T
                (py_range_down (y - 1) (max (y - L) (- 1))) (0, y)))
         (1 * b2i (y \<ge> 1) * b2i (isfinite (px img
            (snd (arm_walk (\<lambda>i. px img i x) (px img y x) T
                (py_range_down (y - 1) (max (y - L) (- 1))) (0, y))) x))),
     max (fst (arm_walk (\<lambda>i. px img i x) (px img y x) T
                (py_range (y + 1) (min (y + L) (int (nrows img)))) (0, y)))
         (1 * b2i (y < int (nrows img) - 1) * b2i (isfinite (px img
            (snd (arm_walk (\<lambda>i. px img i x) (px img y x) T
                (py_range (y + 1) (min (y + L) (int (nrows img)))) (0, y))) x)))]"
  using assms by (simp add: cross_pixel_def Let_def split_beta)

lemma min_arm_down:
  assumes "1 \<le> x" and "far a (p (x - 1)) T" and "isfinite (q (x - 1))" and "isfinite (q x)"
  shows "max (fst (arm_walk p a T (py_range_down (x - 1) (max (x - L) (- 1))) (0, x)))
             (1 * b2i (x \<ge> 1) * b2i (isfinite (q
                (snd (arm_walk p a T (py_range_down (x - 1) (max (x - L) (- 1))) (0, x)))))) = 1"
proof (cases "max (x - L) (- 1) < x - 1")
  case True
  then have "py_range_down (x - 1) (max (x - L) (- 1)) =
             (x - 1) # py_range_down (x - 1 - 1) (max (x - L) (- 1))"
    by (rule py_range_down_Cons)
  with assms show ?thesis by (simp add: b2i_def)
next
  case False
  then have "x - 1 \<le> max (x - L) (- 1)" by linarith
  then have "py_range_down (x - 1) (max (x - L) (- 1)) = []"
    by (rule py_range_down_empty)
  with assms show ?thesis by (simp add: b2i_def)
qed

lemma min_arm_up:
  assumes "x < n - 1" and "far a (p (x + 1)) T" and "isfinite (q (x + 1))" and "isfinite (q x)"
  shows "max (fst (arm_walk p a T (py_range (x + 1) (min (x + L) n)) (0, x)))
             (1 * b2i (x < n - 1) * b2i (isfinite (q
                (snd (arm_walk p a T (py_range (x + 1) (min (x + L) n)) (0, x)))))) = 1"
proof (cases "x + 1 < min (x + L) n")
  case True
  then have "py_range (x + 1) (min (x + L) n) = (x + 1) # py_range (x + 1 + 1) (min (x + L) n)"
    by (rule py_range_Cons)
  with assms show ?thesis by (simp add: b2i_def)
next
  case False
  then have "min (x + L) n \<le> x + 1" by linarith
  then have "py_range (x + 1) (min (x + L) n) = []"
    by (rule py_range_empty)
  with assms show ?thesis by (simp add: b2i_def)
qed

text \<open>
  C8: for a pixel with a finite value, in each of the four directions: when the
  neighbour in that direction exists, is finite and differs from the pixel by at
  least the threshold (so the walk accepts no sample), the arm length in that
  direction is 1. This holds for every maximal arm length.
\<close>

theorem cross_support_minimum_arm:
  assumes "y < nrows img" and "x < ncols img" and "isfinite (px img (int y) (int x))"
  shows
    "(1 \<le> x \<and> isfinite (px img (int y) (int x - 1)) \<and>
        far (px img (int y) (int x)) (px img (int y) (int x - 1)) intensity
      \<longrightarrow> cross_support img len_arms intensity ! y ! x ! 0 = 1) \<and>
     (x + 1 < ncols img \<and> isfinite (px img (int y) (int x + 1)) \<and>
        far (px img (int y) (int x)) (px img (int y) (int x + 1)) intensity
      \<longrightarrow> cross_support img len_arms intensity ! y ! x ! 1 = 1) \<and>
     (1 \<le> y \<and> isfinite (px img (int y - 1) (int x)) \<and>
        far (px img (int y) (int x)) (px img (int y - 1) (int x)) intensity
      \<longrightarrow> cross_support img len_arms intensity ! y ! x ! 2 = 1) \<and>
     (y + 1 < nrows img \<and> isfinite (px img (int y + 1) (int x)) \<and>
        far (px img (int y) (int x)) (px img (int y + 1) (int x)) intensity
      \<longrightarrow> cross_support img len_arms intensity ! y ! x ! 3 = 1)"
proof -
  have eq: "cross_support img len_arms intensity ! y ! x =
        cross_pixel img len_arms intensity (int y) (int x)"
    using assms(1,2) by (rule cross_support_nth)
  note cp = cross_pixel_finite [OF assms(3), of len_arms intensity]
  have l: "cross_pixel img len_arms intensity (int y) (int x) ! 0 = 1"
    if "1 \<le> x" "isfinite (px img (int y) (int x - 1))"
       "far (px img (int y) (int x)) (px img (int y) (int x - 1)) intensity"
  proof -
    from that(1) have "1 \<le> int x" by simp
    from min_arm_down [OF this, of "px img (int y) (int x)" "\<lambda>i. px img (int y) i" intensity
        "\<lambda>i. px img (int y) i" len_arms] that(2,3) assms(3)
    show ?thesis by (simp add: cp)
  qed
  have r: "cross_pixel img len_arms intensity (int y) (int x) ! 1 = 1"
    if "x + 1 < ncols img" "isfinite (px img (int y) (int x + 1))"
       "far (px img (int y) (int x)) (px img (int y) (int x + 1)) intensity"
  proof -
    from that(1) have "int x < int (ncols img) - 1" by simp
    from min_arm_up [OF this, of "px img (int y) (int x)" "\<lambda>i. px img (int y) i" intensity
        "\<lambda>i. px img (int y) i" len_arms] that(2,3) assms(3)
    show ?thesis by (simp add: cp)
  qed
  have u: "cross_pixel img len_arms intensity (int y) (int x) ! 2 = 1"
    if "1 \<le> y" "isfinite (px img (int y - 1) (int x))"
       "far (px img (int y) (int x)) (px img (int y - 1) (int x)) intensity"
  proof -
    from that(1) have "1 \<le> int y" by simp
    from min_arm_down [OF this, of "px img (int y) (int x)" "\<lambda>i. px img i (int x)" intensity
        "\<lambda>i. px img i (int x)" len_arms] that(2,3) assms(3)
    show ?thesis by (simp add: cp)
  qed
  have d: "cross_pixel img len_arms intensity (int y) (int x) ! 3 = 1"
    if "y + 1 < nrows img" "isfinite (px img (int y + 1) (int x))"
       "far (px img (int y) (int x)) (px img (int y + 1) (int x)) intensity"
  proof -
    from that(1) have "int y < int (nrows img) - 1" by simp
    from min_arm_up [OF this, of "px img (int y) (int x)" "\<lambda>i. px img i (int x)" intensity
        "\<lambda>i. px img i (int x)" len_arms] that(2,3) assms(3)
    show ?thesis by (simp add: cp)
  qed
  from l r u d show ?thesis unfolding eq by blast
qed

theorem cross_support_minimum_arm_witness:
  "(1::nat) < nrows [[Num 1, Num 50, Num 1], [Num 50, Num 1, Num 50], [Num 1, Num 50, Num 1]] \<and>
   isfinite (px [[Num 1, Num 50, Num 1], [Num 50, Num 1, Num 50], [Num 1, Num 50, Num 1]] 1 1) \<and>
   far (Num 1) (Num 50) (Num 30) \<and>
   cross_support [[Num 1, Num 50, Num 1], [Num 50, Num 1, Num 50], [Num 1, Num 50, Num 1]]
     5 (Num 30) ! 1 ! 1 ! 0 = 1 \<and>
   cross_support [[Num 1, Num 50, Num 1], [Num 50, Num 1, Num 50], [Num 1, Num 50, Num 1]]
     5 (Num 30) ! 1 ! 1 ! 1 = 1 \<and>
   cross_support [[Num 1, Num 50, Num 1], [Num 50, Num 1, Num 50], [Num 1, Num 50, Num 1]]
     5 (Num 30) ! 1 ! 1 ! 2 = 1 \<and>
   cross_support [[Num 1, Num 50, Num 1], [Num 50, Num 1, Num 50], [Num 1, Num 50, Num 1]]
     5 (Num 30) ! 1 ! 1 ! 3 = 1"
proof -
  let ?im = "[[Num 1, Num 50, Num 1], [Num 50, Num 1, Num 50], [Num 1, Num 50, Num 1]]"
  have h: "(1::nat) < nrows ?im" "(1::nat) < ncols ?im" "isfinite (px ?im (int 1) (int 1))"
    by (simp_all add: nrows_def ncols_def px_def)
  have f: "far (Num 1) (Num 50) (Num 30)"
    by (simp add: far_def fsub_def)
  have n: "px ?im (int 1) (int 1) = Num 1" "px ?im (int 1) (int 1 - 1) = Num 50"
    "px ?im (int 1) (int 1 + 1) = Num 50" "px ?im (int 1 - 1) (int 1) = Num 50"
    "px ?im (int 1 + 1) (int 1) = Num 50"
    by (simp_all add: px_def)
  from cross_support_minimum_arm [OF h, of "Num 30" 5] f
  show ?thesis
    unfolding n by (simp add: nrows_def ncols_def px_def)
qed

subsection \<open>A uniform raster\<close>

lemma near_arm_down:
  assumes "0 \<le> x" and "1 \<le> x \<Longrightarrow> \<not> far a (p (x - 1)) T"
  shows "max (fst (arm_walk p a T (py_range_down (x - 1) (max (x - 2) (- 1))) (0, x)))
             (1 * b2i (x \<ge> 1) * b2i (g
                (snd (arm_walk p a T (py_range_down (x - 1) (max (x - 2) (- 1))) (0, x))))) =
         min 1 x"
proof (cases "1 \<le> x")
  case True
  then have "py_range_down (x - 1) (max (x - 2) (- 1)) = [x - 1]"
    by (simp add: py_range_down_Cons py_range_down_empty)
  with True assms(2) show ?thesis by (simp add: b2i_def)
next
  case False
  with assms(1) have "x = 0" by simp
  then show ?thesis by (simp add: py_range_down_empty b2i_def)
qed

lemma near_arm_up:
  assumes "x < n" and "x + 1 < n \<Longrightarrow> \<not> far a (p (x + 1)) T"
  shows "max (fst (arm_walk p a T (py_range (x + 1) (min (x + 2) n)) (0, x)))
             (1 * b2i (x < n - 1) * b2i (g
                (snd (arm_walk p a T (py_range (x + 1) (min (x + 2) n)) (0, x))))) =
         min 1 (n - 1 - x)"
proof (cases "x + 1 < n")
  case True
  then have "py_range (x + 1) (min (x + 2) n) = [x + 1]"
    by (simp add: py_range_Cons py_range_empty)
  with True assms(2) show ?thesis by (simp add: b2i_def)
next
  case False
  with assms(1) have "n = x + 1" by simp
  then show ?thesis by (simp add: py_range_empty b2i_def)
qed

lemma px_uniform:
  "0 \<le> y \<Longrightarrow> y < int ny \<Longrightarrow> 0 \<le> x \<Longrightarrow> x < int nx \<Longrightarrow>
   px (replicate ny (replicate nx v)) y x = v"
  by (simp add: px_def)

lemma not_far_self: "\<not> far (Num v) (Num v) (Num 1)"
  by (simp add: far_def fsub_def)

lemma cross_support_uniform_exact:
  assumes "y < ny" and "x < nx"
  shows "cross_support (replicate ny (replicate nx (Num v))) 2 (Num 1) ! y ! x =
         [min 1 (int x), min 1 (int nx - 1 - int x), min 1 (int y), min 1 (int ny - 1 - int y)]"
proof -
  let ?img = "replicate ny (replicate nx (Num v))"
  have shape: "nrows ?img = ny" "ncols ?img = nx"
    using assms by (cases ny; simp add: nrows_def ncols_def)+
  have eq: "cross_support ?img 2 (Num 1) ! y ! x = cross_pixel ?img 2 (Num 1) (int y) (int x)"
    using assms by (intro cross_support_nth) (simp_all add: shape)
  have c: "px ?img (int y) (int x) = Num v"
    using assms by (simp add: px_uniform)
  have fin: "isfinite (px ?img (int y) (int x))" by (simp add: c)
  have l: "1 \<le> int x \<Longrightarrow> \<not> far (Num v) (px ?img (int y) (int x - 1)) (Num 1)"
    using assms by (simp add: px_uniform not_far_self)
  have r: "int x + 1 < int nx \<Longrightarrow> \<not> far (Num v) (px ?img (int y) (int x + 1)) (Num 1)"
    using assms by (simp add: px_uniform not_far_self)
  have u: "1 \<le> int y \<Longrightarrow> \<not> far (Num v) (px ?img (int y - 1) (int x)) (Num 1)"
    using assms by (simp add: px_uniform not_far_self)
  have d: "int y + 1 < int ny \<Longrightarrow> \<not> far (Num v) (px ?img (int y + 1) (int x)) (Num 1)"
    using assms by (simp add: px_uniform not_far_self)
  have x0: "0 \<le> int x" "int x < int nx" "0 \<le> int y" "int y < int ny"
    using assms by simp_all
  have a0: "max (fst (arm_walk (\<lambda>i. px ?img (int y) i) (Num v) (Num 1)
                (py_range_down (int x - 1) (max (int x - 2) (- 1))) (0, int x)))
         (1 * b2i (int x \<ge> 1) * b2i (isfinite (px ?img (int y)
            (snd (arm_walk (\<lambda>i. px ?img (int y) i) (Num v) (Num 1)
                (py_range_down (int x - 1) (max (int x - 2) (- 1))) (0, int x)))))) = min 1 (int x)"
    by (rule near_arm_down [where x = "int x" and a = "Num v" and T = "Num 1" and p = "\<lambda>i. px ?img (int y) i" and g = "\<lambda>i. isfinite (px ?img (int y) i)", OF x0(1) l])
  have a1: "max (fst (arm_walk (\<lambda>i. px ?img (int y) i) (Num v) (Num 1)
                (py_range (int x + 1) (min (int x + 2) (int nx))) (0, int x)))
         (1 * b2i (int x < int nx - 1) * b2i (isfinite (px ?img (int y)
            (snd (arm_walk (\<lambda>i. px ?img (int y) i) (Num v) (Num 1)
                (py_range (int x + 1) (min (int x + 2) (int nx))) (0, int x)))))) =
         min 1 (int nx - 1 - int x)"
    by (rule near_arm_up [where x = "int x" and n = "int nx" and a = "Num v" and T = "Num 1" and p = "\<lambda>i. px ?img (int y) i" and g = "\<lambda>i. isfinite (px ?img (int y) i)", OF x0(2) r])
  have a2: "max (fst (arm_walk (\<lambda>i. px ?img i (int x)) (Num v) (Num 1)
                (py_range_down (int y - 1) (max (int y - 2) (- 1))) (0, int y)))
         (1 * b2i (int y \<ge> 1) * b2i (isfinite (px ?img
            (snd (arm_walk (\<lambda>i. px ?img i (int x)) (Num v) (Num 1)
                (py_range_down (int y - 1) (max (int y - 2) (- 1))) (0, int y))) (int x)))) =
         min 1 (int y)"
    by (rule near_arm_down [where x = "int y" and a = "Num v" and T = "Num 1" and p = "\<lambda>i. px ?img i (int x)" and g = "\<lambda>i. isfinite (px ?img i (int x))", OF x0(3) u])
  have a3: "max (fst (arm_walk (\<lambda>i. px ?img i (int x)) (Num v) (Num 1)
                (py_range (int y + 1) (min (int y + 2) (int ny))) (0, int y)))
         (1 * b2i (int y < int ny - 1) * b2i (isfinite (px ?img
            (snd (arm_walk (\<lambda>i. px ?img i (int x)) (Num v) (Num 1)
                (py_range (int y + 1) (min (int y + 2) (int ny))) (0, int y))) (int x)))) =
         min 1 (int ny - 1 - int y)"
    by (rule near_arm_up [where x = "int y" and n = "int ny" and a = "Num v" and T = "Num 1" and p = "\<lambda>i. px ?img i (int x)" and g = "\<lambda>i. isfinite (px ?img i (int x))", OF x0(4) d])
  show ?thesis
    unfolding eq cross_pixel_finite [OF fin] c shape a0 a1 a2 a3 ..
qed

text \<open>
  C3, as the code has it: on a raster whose values are all equal and finite, with
  maximal arm length 2 and threshold 1.0, every interior pixel (at distance at least 2
  from every border) has all four arm lengths equal to 1, and every pixel has arm
  lengths bounded by its distance to the border. A walk of \<open>cross_support\<close> probes
  \<open>len_arms - 1\<close> samples at most, so no arm reaches 2.
\<close>

theorem cross_support_uniform:
  assumes "y < ny" and "x < nx"
  shows "(2 \<le> x \<and> x + 2 < nx \<and> 2 \<le> y \<and> y + 2 < ny \<longrightarrow>
            cross_support (replicate ny (replicate nx (Num v))) 2 (Num 1) ! y ! x = [1, 1, 1, 1]) \<and>
         cross_support (replicate ny (replicate nx (Num v))) 2 (Num 1) ! y ! x ! 0 \<le> int x \<and>
         cross_support (replicate ny (replicate nx (Num v))) 2 (Num 1) ! y ! x ! 1
            \<le> int nx - 1 - int x \<and>
         cross_support (replicate ny (replicate nx (Num v))) 2 (Num 1) ! y ! x ! 2 \<le> int y \<and>
         cross_support (replicate ny (replicate nx (Num v))) 2 (Num 1) ! y ! x ! 3
            \<le> int ny - 1 - int y"
  unfolding cross_support_uniform_exact [OF assms] by simp

theorem cross_support_uniform_witness:
  "(2::nat) < 5 \<and>
   cross_support (replicate 5 (replicate 5 (Num 7))) 2 (Num 1) ! 2 ! 2 = [1, 1, 1, 1] \<and>
   cross_support (replicate 5 (replicate 5 (Num 7))) 2 (Num 1) ! 2 ! 2 ! 0 \<le> 2"
proof -
  have h: "(2::nat) < 5" by simp
  from cross_support_uniform [OF h h, of 7] show ?thesis by simp
qed

text \<open>The centre of a uniform 5 by 5 raster does not have arms of length 2.\<close>

theorem cross_support_uniform_arm_two_counterexample:
  "cross_support (replicate 5 (replicate 5 (Num 7))) 2 (Num 1) ! 2 ! 2 \<noteq> [2, 2, 2, 2]"
proof -
  have h: "(2::nat) < 5" by simp
  show ?thesis unfolding cross_support_uniform_exact [OF h h] by simp
qed

subsection \<open>The configuration check\<close>

text \<open>
  C4: a configuration whose \<open>aggregation_method\<close> is a string other than \<open>cbca\<close>
  should fail the construction. It does not: the predicate of the
  \<open>aggregation_method\<close> entry returns the constant string \<open>'cbca'\<close>, which is truthy
  whatever the argument is, so \<open>check_conf\<close> accepts every string and the
  constructor succeeds with the method \<open>census\<close>.
\<close>

theorem check_conf_accepts_any_method:
  "check_conf [(''aggregation_method'', PStr s)] =
     Inr [(''aggregation_method'', PStr s), (''cbca_intensity'', PFloat (Num 30)),
          (''cbca_distance'', PInt 5)] \<and>
   init [(''aggregation_method'', PStr ''census'')] =
     Inr \<lparr>cfg = [(''aggregation_method'', PStr ''census''), (''cbca_intensity'', PFloat (Num 30)),
                 (''cbca_distance'', PInt 5)],
          cbca_intensity = Num 30, cbca_distance = 5\<rparr>"
  by (simp add: init_def check_conf_def set_default_def has_key_def validate_def schema_def fgt_def)

subsection \<open>Loops\<close>

lemma for_loop_inv:
  assumes "for_loop is body s = Some s'" and "P s"
    and "\<And>i s s'. i \<in> set is \<Longrightarrow> P s \<Longrightarrow> body i s = Some s' \<Longrightarrow> P s'"
  shows "P s'"
  using assms
proof (induction "is" arbitrary: s)
  case Nil
  then show ?case by simp
next
  case (Cons i "is")
  from Cons.prems(1) obtain s1 where b: "body i s = Some s1" and r: "for_loop is body s1 = Some s'"
    by (auto split: option.splits)
  from Cons.prems(3) [OF _ Cons.prems(2) b] have "P s1" by simp
  show ?case
  proof (rule Cons.IH [OF r \<open>P s1\<close>])
    fix j t t'
    assume "j \<in> set is" "P t" "body j t = Some t'"
    then show "P t'" using Cons.prems(3) [of j t t'] by simp
  qed
qed

subsection \<open>Evaluation of a small aggregation\<close>

lemmas eval_defs = cost_volume_aggregation_def aggregate_all_def aggregate_layer_def
  cbca_step_1_def cbca_step_2_def cbca_step_3_def cbca_step_4_def
  step2_cell_def step4_cell_def
  cross_support_def cross_pixel_def nrows_def ncols_def nb_disp_def px_def layer_def
  py_range_def py_range_down_def far_def fsub_def b2i_def fzeros_def zeros_def
  get2_def set2_def get3_def py_get_def py_set_def valid_index_def trunc_def
  sum_slice_def py_slice_def slice_bound_def Let_def

text \<open>
  One row of two pixels and the disparities 0 and 1. At disparity 1 the column 1 has no
  counterpart in the right image.
\<close>

lemma aggregation_example:
  "cost_volume_aggregation \<lparr>cfg = [], cbca_intensity = Num 30, cbca_distance = 5\<rparr>
     [[Num 1, Num 2]] [[[Num 1, Num 2]]]
     \<lparr>cost_volume = [[[NaN, Num 4], [Num 6, Num 8]]], disp = [0, 1], subpixel = 1, cmax = 1,
      aggregation = ''none''\<rparr> =
   Some \<lparr>cost_volume = [[[NaN, Num 4], [Num 3, Num 0]]], disp = [0, 1], subpixel = 1,
      cmax = 81, aggregation = ''cbca''\<rparr>"
  by (simp add: eval_defs upto_rec1)

subsection \<open>Invalid costs\<close>

lemma isnan_iff: "isnan a \<longleftrightarrow> a = NaN"
  by (cases a) simp_all

lemma layer_update_nan:
  assumes "x < nx" and "y < ny" and "isnan (agg ! d ! x ! y)"
  shows "isnan (map (\<lambda>x. map (\<lambda>y. fdiv
            (map (\<lambda>x. map (\<lambda>y. fadd (agg ! d ! x ! y) (step4 ! y ! x)) [0 ..< ny]) [0 ..< nx] ! x ! y)
            (Num (real_of_int (sum4 ! y ! x)))) [0 ..< ny]) [0 ..< nx] ! x ! y)"
  using assms by (simp add: isnan_iff)

lemma aggregate_all_nan:
  assumes "aggregate_all cross_left cross_right distance cv = Some cv'"
    and "y < nrows (cost_volume cv)" and "x < ncols (cost_volume cv)"
    and "d < nb_disp (cost_volume cv)"
    and "isnan (cost_volume cv ! y ! x ! d)"
  shows "isnan (cost_volume cv' ! y ! x ! d)"
proof -
  let ?data = "cost_volume cv"
  let ?ny = "nrows ?data" and ?nx = "ncols ?data" and ?nd = "nb_disp ?data"
  let ?agg0 = "map (\<lambda>d. map (\<lambda>x. map (\<lambda>y.
                  fmul (fadd (Num 0) (?data ! y ! x ! d)) (Num 0)) [0 ..< ?ny]) [0 ..< ?nx]) [0 ..< ?nd]"
  let ?body = "\<lambda>d agg.
          do { (step4, sum4) \<leftarrow> aggregate_layer cross_left cross_right cv d;
               let added = map (\<lambda>x. map (\<lambda>y. fadd (agg ! d ! x ! y) (step4 ! y ! x))
                                  [0 ..< ?ny]) [0 ..< ?nx];
               let normed = map (\<lambda>x. map (\<lambda>y. fdiv (added ! x ! y)
                                             (Num (real_of_int (sum4 ! y ! x))))
                                  [0 ..< ?ny]) [0 ..< ?nx];
               Some (agg[d := normed]) }"
  let ?P = "\<lambda>agg. length agg = ?nd \<and> isnan (agg ! d ! x ! y)"
  from assms(1) obtain agg where loop: "for_loop [0 ..< ?nd] ?body ?agg0 = Some agg"
    and out: "cost_volume cv' = map (\<lambda>y. map (\<lambda>x. map (\<lambda>d. agg ! d ! x ! y)
                                     [0 ..< ?nd]) [0 ..< ?nx]) [0 ..< ?ny]"
    by (auto simp: aggregate_all_def Let_def split: Option.bind_splits)
  have init: "?P ?agg0"
    using assms(2-5) by (simp add: isnan_iff)
  have step: "?P agg2" if "i \<in> set [0 ..< ?nd]" and "?P agg1" and "?body i agg1 = Some agg2"
    for i agg1 agg2
  proof -
    from that(3) obtain step4 sum4 where
      upd: "agg2 = agg1[i := map (\<lambda>x. map (\<lambda>y. fdiv
            (map (\<lambda>x. map (\<lambda>y. fadd (agg1 ! i ! x ! y) (step4 ! y ! x)) [0 ..< ?ny]) [0 ..< ?nx] ! x ! y)
            (Num (real_of_int (sum4 ! y ! x)))) [0 ..< ?ny]) [0 ..< ?nx]]"
      by (auto simp: Let_def split: Option.bind_splits)
    show ?thesis
    proof (cases "i = d")
      case True
      with that(2) assms(4) have "agg2 ! d = map (\<lambda>x. map (\<lambda>y. fdiv
            (map (\<lambda>x. map (\<lambda>y. fadd (agg1 ! d ! x ! y) (step4 ! y ! x)) [0 ..< ?ny]) [0 ..< ?nx] ! x ! y)
            (Num (real_of_int (sum4 ! y ! x)))) [0 ..< ?ny]) [0 ..< ?nx]"
        unfolding upd by simp
      moreover from that(2) have "isnan (agg1 ! d ! x ! y)" by simp
      ultimately have "isnan (agg2 ! d ! x ! y)"
        using layer_update_nan [OF assms(3) assms(2), of agg1 d step4 sum4] by simp
      with that(2) show ?thesis by (simp add: upd)
    next
      case False
      with that(2) show ?thesis by (simp add: upd)
    qed
  qed
  have "?P agg"
    by (rule for_loop_inv [where P = ?P, OF loop init step])
  with assms(2-4) show ?thesis by (simp add: out)
qed

text \<open>
  C5: every cell of the cost volume whose input cost is NaN holds NaN in the output of
  \<open>cost_volume_aggregation\<close>, whether or not the aggregation of its layer covers it:
  the initial value \<open>(0 + NaN) * 0\<close> is NaN, and adding the aggregated cost and
  dividing by the support count keep it.
\<close>

theorem nan_cost_stays_nan:
  assumes "cost_volume_aggregation self left_masked right_masked cv = Some cv'"
    and "y < nrows (cost_volume cv)" and "x < ncols (cost_volume cv)"
    and "d < nb_disp (cost_volume cv)"
    and "isnan (cost_volume cv ! y ! x ! d)"
  shows "isnan (cost_volume cv' ! y ! x ! d)"
  using assms unfolding cost_volume_aggregation_def Let_def
  by (rule aggregate_all_nan)

theorem nan_cost_stays_nan_witness:
  "cost_volume_aggregation \<lparr>cfg = [], cbca_intensity = Num 30, cbca_distance = 5\<rparr>
     [[Num 1, Num 2]] [[[Num 1, Num 2]]]
     \<lparr>cost_volume = [[[NaN, Num 4], [Num 6, Num 8]]], disp = [0, 1], subpixel = 1, cmax = 1,
      aggregation = ''none''\<rparr> =
   Some \<lparr>cost_volume = [[[NaN, Num 4], [Num 3, Num 0]]], disp = [0, 1], subpixel = 1,
      cmax = 81, aggregation = ''cbca''\<rparr> \<and>
   isnan ([[[NaN, Num 4], [Num 6, Num 8]]] ! 0 ! 0 ! 0) \<and>
   isnan ([[[NaN, Num 4], [Num 3, Num 0]]] ! 0 ! 0 ! 0)"
  using nan_cost_stays_nan [OF aggregation_example, of 0 0 0] aggregation_example
  by (simp add: nrows_def ncols_def nb_disp_def)

subsection \<open>Reads and writes\<close>

lemma py_get_SomeD:
  assumes "py_get xs i = Some v" and "0 \<le> i"
  shows "nat i < length xs \<and> v = xs ! nat i"
  using assms by (auto simp: py_get_def Let_def split: if_splits)

lemma py_get_in_set: "py_get xs i = Some v \<Longrightarrow> v \<in> set xs"
  by (auto simp: py_get_def Let_def split: if_splits)


lemma py_set_SomeD:
  assumes "py_set xs i v = Some xs'"
  shows "\<exists>j < length xs. xs' = xs[j := v] \<and> (0 \<le> i \<longrightarrow> j = nat i)"
proof (cases "i < 0")
  case True
  with assms have "nat (i + int (length xs)) < length xs" "xs' = xs[nat (i + int (length xs)) := v]"
    by (auto simp: py_set_def Let_def split: if_splits)
  with True show ?thesis by (intro exI [of _ "nat (i + int (length xs))"]) simp
next
  case False
  with assms have "nat i < length xs" "xs' = xs[nat i := v]"
    by (auto simp: py_set_def Let_def split: if_splits)
  then show ?thesis by (intro exI [of _ "nat i"]) simp
qed

lemma get2_SomeD:
  assumes "get2 m y x = Some v" and "0 \<le> y" and "0 \<le> x"
  shows "nat y < length m \<and> nat x < length (m ! nat y) \<and> v = m ! nat y ! nat x"
proof -
  from assms(1) obtain row where r: "py_get m y = Some row" and c: "py_get row x = Some v"
    by (auto simp: get2_def split: Option.bind_splits)
  from py_get_SomeD [OF r assms(2)] py_get_SomeD [OF c assms(3)] show ?thesis by simp
qed


lemma set2_SomeD:
  assumes "set2 m y x v = Some m'"
  shows "\<exists>j < length m. \<exists>k < length (m ! j). m' = m[j := (m ! j)[k := v]] \<and>
           (0 \<le> y \<longrightarrow> j = nat y) \<and> (0 \<le> x \<longrightarrow> k = nat x)"
proof -
  from assms obtain row row' where r: "py_get m y = Some row"
    and w: "py_set row x v = Some row'" and s: "py_set m y row' = Some m'"
    by (auto simp: set2_def split: Option.bind_splits)
  from r have rj: "\<exists>j < length m. row = m ! j \<and> (if y < 0 then j = nat (y + int (length m)) else j = nat y)"
    by (auto simp: py_get_def Let_def split: if_splits)
  then obtain j where j: "j < length m" "row = m ! j"
    "if y < 0 then j = nat (y + int (length m)) else j = nat y" by blast
  from s j(3) have m': "m' = m[j := row']"
    by (auto simp: py_set_def Let_def split: if_splits)
  from py_set_SomeD [OF w] obtain k where k: "k < length row" "row' = row[k := v]"
    "0 \<le> x \<longrightarrow> k = nat x" by blast
  from j k m' show ?thesis by (intro exI [of _ j] conjI exI [of _ k]) auto
qed

lemma set2_SomeD_nat:
  assumes "set2 m y x v = Some m'" and "0 \<le> y" and "0 \<le> x"
  shows "nat y < length m \<and> nat x < length (m ! nat y) \<and>
         m' = m[nat y := (m ! nat y)[nat x := v]]"
  using set2_SomeD [OF assms(1)] assms(2,3) by auto

lemma upd2_other:
  "(y', x') \<noteq> (y, x) \<Longrightarrow> m[y := (m ! y)[x := v]] ! y' ! x' = m ! y' ! x'"
  by (cases "y' = y"; cases "y < length m") (auto simp: list_update_beyond not_less)

lemma upd2_row_length: "length (m[y := (m ! y)[x := v]] ! y') = length (m ! y')"
  by (cases "y' = y"; cases "y < length m") (auto simp: list_update_beyond not_less)

lemma set2_shape:
  assumes "set2 m y x v = Some m'" and "has_shape m ny nx"
  shows "has_shape m' ny nx"
proof -
  from set2_SomeD [OF assms(1)] obtain j k where m': "m' = m[j := (m ! j)[k := v]]" by blast
  have "length (m' ! i) = nx" if "i < length m'" for i
    using that assms(2) unfolding m' has_shape_def list_all_length
    by (simp add: upd2_row_length del: nth_list_update_eq)
  with assms(2) show ?thesis
    unfolding has_shape_def list_all_length m' by simp
qed

lemma has_shape_fzeros: "has_shape (fzeros ny nx) ny nx"
  by (simp add: has_shape_def fzeros_def list_all_length)

lemma has_shape_zeros: "has_shape (zeros ny nx) ny nx"
  by (simp add: has_shape_def zeros_def list_all_length)

lemma has_shape_dims:
  assumes "has_shape m ny nx" and "0 < ny"
  shows "nrows m = ny" and "ncols m = nx"
  using assms by (cases m; simp add: has_shape_def nrows_def ncols_def)+

subsection \<open>The last write of a loop\<close>

lemma for_loop_write:
  assumes "for_loop is body s = Some s'" and "i \<in> set is" and "distinct is" and "Z s"
    and wr: "\<And>t t'. Z t \<Longrightarrow> body i t = Some t' \<Longrightarrow> Q t'"
    and keep0: "\<And>j t t'. j \<in> set is \<Longrightarrow> j \<noteq> i \<Longrightarrow> Z t \<Longrightarrow> body j t = Some t' \<Longrightarrow> Z t'"
    and keep: "\<And>j t t'. j \<in> set is \<Longrightarrow> j \<noteq> i \<Longrightarrow> Q t \<Longrightarrow> body j t = Some t' \<Longrightarrow> Q t'"
  shows "Q s'"
  using assms(1-4) keep0 keep
proof (induction "is" arbitrary: s)
  case Nil
  then show ?case by simp
next
  case (Cons j js)
  from Cons.prems(1) obtain s1 where b: "body j s = Some s1" and r: "for_loop js body s1 = Some s'"
    by (auto split: option.splits)
  show ?case
  proof (cases "j = i")
    case True
    with b Cons.prems(4) have q: "Q s1" using wr by blast
    from True Cons.prems(3) have ni: "i \<notin> set js" by simp
    show ?thesis
    proof (rule for_loop_inv [where P = Q, OF r q])
      fix l t t'
      assume "l \<in> set js" "Q t" "body l t = Some t'"
      with ni show "Q t'" using Cons.prems(6) [of l t t'] by auto
    qed
  next
    case False
    with b Cons.prems(4) have q0: "Z s1" using Cons.prems(5) [of j s s1] by simp
    from False Cons.prems(2) have "i \<in> set js" by simp
    moreover from Cons.prems(3) have "distinct js" by simp
    ultimately show ?thesis
    proof (rule Cons.IH [OF r _ _ q0])
      fix l t t'
      assume "l \<in> set js" "l \<noteq> i" "Z t" "body l t = Some t'"
      then show "Z t'" using Cons.prems(5) [of l t t'] by simp
    next
      fix l t t'
      assume "l \<in> set js" "l \<noteq> i" "Q t" "body l t = Some t'"
      then show "Q t'" using Cons.prems(6) [of l t t'] by simp
    qed
  qed
qed

lemma py_range_set: "set (py_range a b) = {a ..< b}"
  by (auto simp: py_range_def)


subsection \<open>Nested loops over rows and columns\<close>

lemma nested_loops_inv:
  assumes loop: "for_loop (py_range 0 ny) (\<lambda>y. for_loop (py_range 0 n) (body y)) s0 = Some s"
    and init: "P s0"
    and step: "\<And>y x t t'. 0 \<le> y \<Longrightarrow> y < ny \<Longrightarrow> 0 \<le> x \<Longrightarrow> x < n \<Longrightarrow> P t \<Longrightarrow>
                 body y x t = Some t' \<Longrightarrow> P t'"
  shows "P s"
proof (rule for_loop_inv [where P = P, OF loop init])
  fix y t t'
  assume y: "y \<in> set (py_range 0 ny)" and p: "P t"
    and l: "for_loop (py_range 0 n) (body y) t = Some t'"
  show "P t'"
  proof (rule for_loop_inv [where P = P, OF l p])
    fix x u u'
    assume "x \<in> set (py_range 0 n)" "P u" "body y x u = Some u'"
    with y show "P u'" using step [of y x u u'] by (simp add: py_range_set)
  qed
qed



subsection \<open>Slices\<close>




subsection \<open>Step 2: the horizontal matching cost\<close>

lemma step2_cell_SomeD:
  assumes "step2_cell step1 cl cr rc rcr y x = Some (col, v, w)"
  shows "\<exists>col_right r1 r2 l1 l2 a b.
     py_get rc x = Some col \<and> py_get rcr x = Some col_right \<and>
     get3 cl y col 1 = Some r1 \<and> get3 cr y col_right 1 = Some r2 \<and>
     get3 cl y col 0 = Some l1 \<and> get3 cr y col_right 0 = Some l2 \<and>
     get2 step1 y (col + min r1 r2) = Some a \<and>
     get2 step1 y (col - min l1 l2 - 1) = Some b \<and>
     v = fsub a b \<and> w = min r1 r2 + min l1 l2"
  using assms unfolding step2_cell_def Let_def
  by (auto split: Option.bind_splits)

lemma step2_store_effect:
  assumes "step2_store y (col, v, w) (s2, n2) = Some (s2', n2')" and "0 \<le> y" and "0 \<le> col"
  shows "nat y < length s2 \<and> nat col < length (s2 ! nat y) \<and>
         s2' = s2[nat y := (s2 ! nat y)[nat col := v]] \<and>
         nat y < length n2 \<and> nat col < length (n2 ! nat y) \<and>
         n2' = n2[nat y := (n2 ! nat y)[nat col := n2 ! nat y ! nat col + w]]"
proof -
  from assms(1) obtain n where a: "set2 s2 y col v = Some s2'" and b: "get2 n2 y col = Some n"
    and c: "set2 n2 y col (n + w) = Some n2'"
    by (auto split: Option.bind_splits)
  from set2_SomeD_nat [OF a assms(2,3)] get2_SomeD [OF b assms(2,3)]
    set2_SomeD_nat [OF c assms(2,3)]
  show ?thesis by simp
qed


lemma step2_body_effect:
  assumes "do { c \<leftarrow> step2_cell step1 cl cr rc rcr y x; step2_store y c t } = Some t'"
    and "0 \<le> y" and "0 \<le> x" and "\<forall>c \<in> set rc. 0 \<le> c"
  shows "\<exists>v w. step2_cell step1 cl cr rc rcr y x = Some (rc ! nat x, v, w) \<and>
           nat x < length rc \<and>
           nat y < length (fst t) \<and> nat (rc ! nat x) < length (fst t ! nat y) \<and>
           fst t' = (fst t)[nat y := (fst t ! nat y)[nat (rc ! nat x) := v]] \<and>
           nat y < length (snd t) \<and> nat (rc ! nat x) < length (snd t ! nat y) \<and>
           snd t' = (snd t)[nat y := (snd t ! nat y)
                      [nat (rc ! nat x) := snd t ! nat y ! nat (rc ! nat x) + w]]"
proof -
  from assms(1) obtain col v w where c: "step2_cell step1 cl cr rc rcr y x = Some (col, v, w)"
    and st: "step2_store y (col, v, w) t = Some t'"
    by (auto split: Option.bind_splits)
  from step2_cell_SomeD [OF c] have "py_get rc x = Some col" by blast
  from py_get_SomeD [OF this assms(3)] have x: "nat x < length rc" and col: "col = rc ! nat x"
    by simp_all
  with assms(4) have c0: "0 \<le> col" by simp
  obtain s2 n2 s2' n2' where t: "t = (s2, n2)" "t' = (s2', n2')"
    by (cases t; cases t')
  from step2_store_effect [OF st [unfolded t] assms(2) c0] c x
  show ?thesis unfolding t col by simp
qed

lemma step2_body_frame:
  assumes "do { c \<leftarrow> step2_cell step1 cl cr rc rcr y x; step2_store y c t } = Some t'"
    and "0 \<le> y" and "0 \<le> x" and "\<forall>c \<in> set rc. 0 \<le> c"
  shows "length (fst t') = length (fst t) \<and> length (snd t') = length (snd t) \<and>
         length (fst t' ! y0) = length (fst t ! y0) \<and>
         length (snd t' ! y0) = length (snd t ! y0) \<and>
         ((y0, c0) \<noteq> (nat y, nat (rc ! nat x)) \<longrightarrow>
            fst t' ! y0 ! c0 = fst t ! y0 ! c0 \<and> snd t' ! y0 ! c0 = snd t ! y0 ! c0)"
proof -
  from step2_body_effect [OF assms] obtain v w where
    f: "fst t' = (fst t)[nat y := (fst t ! nat y)[nat (rc ! nat x) := v]]" and
    s: "snd t' = (snd t)[nat y := (snd t ! nat y)
                      [nat (rc ! nat x) := snd t ! nat y ! nat (rc ! nat x) + w]]"
    by blast
  show ?thesis
    unfolding f s by (simp add: upd2_other upd2_row_length del: nth_list_update_eq)
qed






subsection \<open>Step 4: the vertical matching cost and the support count\<close>

lemma step4_cell_SomeD:
  assumes "step4_cell step3 cl cr rc rcr y x = Some (col, v, tp, bt)"
  shows "\<exists>col_right t1 t2 b1 b2 lo hi.
     py_get rc x = Some col \<and> py_get rcr x = Some col_right \<and>
     get3 cl y col 2 = Some t1 \<and> get3 cr y col_right 2 = Some t2 \<and>
     get3 cl y col 3 = Some b1 \<and> get3 cr y col_right 3 = Some b2 \<and>
     tp = min t1 t2 \<and> bt = min b1 b2 \<and>
     get2 step3 (y + bt) col = Some lo \<and>
     get2 step3 (y - tp - 1) col = Some hi \<and>
     v = fsub lo hi"
  using assms unfolding step4_cell_def Let_def
  by (auto split: Option.bind_splits)

lemma incr_cell:
  assumes "get2 m y x = Some n" and "set2 m y x (n + d) = Some m'" and "0 \<le> y" and "0 \<le> x"
  shows "nat y < length m \<and> nat x < length (m ! nat y) \<and>
         m' = m[nat y := (m ! nat y)[nat x := m ! nat y ! nat x + d]]"
  using get2_SomeD [OF assms(1,3,4)] set2_SomeD_nat [OF assms(2,3,4)] by simp

lemma step4_store_effect:
  assumes "step4_store sum2 y (col, v, tp, bt) (s4, n4) = Some (s4', n4')"
    and "0 \<le> y" and "0 \<le> col"
  shows "nat y < length s4 \<and> nat col < length (s4 ! nat y) \<and>
         s4' = s4[nat y := (s4 ! nat y)[nat col := v]] \<and>
         nat y < length n4 \<and> nat col < length (n4 ! nat y) \<and>
         (\<exists>T B. (if tp \<noteq> 0 then sum_slice sum2 (y - tp) y col = Some T else T = 0) \<and>
                (if bt \<noteq> 0 then sum_slice sum2 (y + 1) (y + bt + 1) col = Some B else B = 0) \<and>
                n4' = n4[nat y := (n4 ! nat y)
                        [nat col := n4 ! nat y ! nat col + (tp + bt) + T + B]])"
proof -
  from assms(1) obtain n a b where
    s: "set2 s4 y col v = Some s4'" and
    g: "get2 n4 y col = Some n" and a: "set2 n4 y col (n + (tp + bt)) = Some a" and
    b: "(if tp \<noteq> 0
         then do { n \<leftarrow> get2 a y col; s \<leftarrow> sum_slice sum2 (y - tp) y col; set2 a y col (n + s) }
         else Some a) = Some b" and
    c: "(if bt \<noteq> 0
         then do { n \<leftarrow> get2 b y col; s \<leftarrow> sum_slice sum2 (y + 1) (y + bt + 1) col;
                   set2 b y col (n + s) }
         else Some b) = Some n4'"
    by (auto simp: bind_eq_Some_conv)
  let ?y = "nat y" and ?c = "nat col"
  let ?old = "n4 ! ?y ! ?c"
  from incr_cell [OF g a assms(2,3)] have
    r: "?y < length n4" "?c < length (n4 ! ?y)" and
    a': "a = n4[?y := (n4 ! ?y)[?c := ?old + (tp + bt)]]" by simp_all
  obtain T where T: "if tp \<noteq> 0 then sum_slice sum2 (y - tp) y col = Some T else T = 0"
    and b': "b = n4[?y := (n4 ! ?y)[?c := ?old + (tp + bt) + T]]"
  proof (cases "tp \<noteq> 0")
    case True
    with b obtain n1 T where g1: "get2 a y col = Some n1"
      and sl: "sum_slice sum2 (y - tp) y col = Some T" and s1: "set2 a y col (n1 + T) = Some b"
      by (auto simp: bind_eq_Some_conv)
    from incr_cell [OF g1 s1 assms(2,3)] r
    have "b = n4[?y := (n4 ! ?y)[?c := ?old + (tp + bt) + T]]"
      unfolding a' by simp
    with True sl that show ?thesis by simp
  next
    case False
    with b a' that [of 0] show ?thesis by simp
  qed
  obtain B where B: "if bt \<noteq> 0 then sum_slice sum2 (y + 1) (y + bt + 1) col = Some B else B = 0"
    and c': "n4' = n4[?y := (n4 ! ?y)[?c := ?old + (tp + bt) + T + B]]"
  proof (cases "bt \<noteq> 0")
    case True
    with c obtain n1 B where g1: "get2 b y col = Some n1"
      and sl: "sum_slice sum2 (y + 1) (y + bt + 1) col = Some B"
      and s1: "set2 b y col (n1 + B) = Some n4'"
      by (auto simp: bind_eq_Some_conv)
    from incr_cell [OF g1 s1 assms(2,3)] r
    have "n4' = n4[?y := (n4 ! ?y)[?c := ?old + (tp + bt) + T + B]]"
      unfolding b' by simp
    with True sl that show ?thesis by simp
  next
    case False
    with c b' that [of 0] show ?thesis by simp
  qed
  from set2_SomeD_nat [OF s assms(2,3)] r T B c' show ?thesis by blast
qed


lemma step4_body_effect:
  assumes "do { c \<leftarrow> step4_cell step3 cl cr rc rcr y x; step4_store sum2 y c t } = Some t'"
    and "0 \<le> y" and "0 \<le> x" and "\<forall>c \<in> set rc. 0 \<le> c"
  shows "\<exists>v tp bt T B. step4_cell step3 cl cr rc rcr y x = Some (rc ! nat x, v, tp, bt) \<and>
           nat x < length rc \<and>
           (if tp \<noteq> 0 then sum_slice sum2 (y - tp) y (rc ! nat x) = Some T else T = 0) \<and>
           (if bt \<noteq> 0 then sum_slice sum2 (y + 1) (y + bt + 1) (rc ! nat x) = Some B
            else B = 0) \<and>
           nat y < length (fst t) \<and> nat (rc ! nat x) < length (fst t ! nat y) \<and>
           fst t' = (fst t)[nat y := (fst t ! nat y)[nat (rc ! nat x) := v]] \<and>
           nat y < length (snd t) \<and> nat (rc ! nat x) < length (snd t ! nat y) \<and>
           snd t' = (snd t)[nat y := (snd t ! nat y)
                      [nat (rc ! nat x) := snd t ! nat y ! nat (rc ! nat x) + (tp + bt) + T + B]]"
proof -
  from assms(1) obtain col v tp bt where
    c: "step4_cell step3 cl cr rc rcr y x = Some (col, v, tp, bt)"
    and st: "step4_store sum2 y (col, v, tp, bt) t = Some t'"
    by (auto simp: bind_eq_Some_conv)
  from step4_cell_SomeD [OF c] have "py_get rc x = Some col" by blast
  from py_get_SomeD [OF this assms(3)] have x: "nat x < length rc" and col: "col = rc ! nat x"
    by simp_all
  with assms(4) have c0: "0 \<le> col" by simp
  obtain s4 n4 s4' n4' where t: "t = (s4, n4)" "t' = (s4', n4')"
    by (cases t; cases t')
  from step4_store_effect [OF st [unfolded t] assms(2) c0] c x
  show ?thesis unfolding t col by auto
qed

lemma step4_body_frame:
  assumes "do { c \<leftarrow> step4_cell step3 cl cr rc rcr y x; step4_store sum2 y c t } = Some t'"
    and "0 \<le> y" and "0 \<le> x" and "\<forall>c \<in> set rc. 0 \<le> c"
  shows "length (fst t') = length (fst t) \<and> length (snd t') = length (snd t) \<and>
         length (fst t' ! y0) = length (fst t ! y0) \<and>
         length (snd t' ! y0) = length (snd t ! y0) \<and>
         ((y0, c0) \<noteq> (nat y, nat (rc ! nat x)) \<longrightarrow>
            fst t' ! y0 ! c0 = fst t ! y0 ! c0 \<and> snd t' ! y0 ! c0 = snd t ! y0 ! c0)"
proof -
  from step4_body_effect [OF assms] obtain v w where
    f: "fst t' = (fst t)[nat y := (fst t ! nat y)[nat (rc ! nat x) := v]]" and
    s: "snd t' = (snd t)[nat y := (snd t ! nat y)[nat (rc ! nat x) := w]]"
    by blast
  show ?thesis
    unfolding f s by (simp add: upd2_other upd2_row_length del: nth_list_update_eq)
qed





subsection \<open>Shapes of the intermediate arrays\<close>

lemma cbca_step_1_shape:
  assumes "cbca_step_1 cv = Some step1"
  shows "has_shape step1 (nrows cv) (ncols cv + 1)"
proof (rule nested_loops_inv [where P = "\<lambda>s. has_shape s (nrows cv) (ncols cv + 1)",
      OF assms [unfolded cbca_step_1_def Let_def]])
  show "has_shape (fzeros (nrows cv) (ncols cv + 1)) (nrows cv) (ncols cv + 1)"
    by (rule has_shape_fzeros)
next
  fix y x :: int and t t' :: raster
  assume p: "has_shape t (nrows cv) (ncols cv + 1)"
    and b: "do { c \<leftarrow> get2 cv y x; prev \<leftarrow> get2 t y (x - 1);
                 if \<not> isnan c then set2 t y x (fadd prev c) else set2 t y x prev } = Some t'"
  from b obtain v where "set2 t y x v = Some t'"
    by (auto simp: bind_eq_Some_conv split: if_splits)
  from set2_shape [OF this p] show "has_shape t' (nrows cv) (ncols cv + 1)" .
qed

lemma step2_store_shape:
  assumes "step2_store y c t = Some t'" and "has_shape (fst t) ny nx" and "has_shape (snd t) ny nx"
  shows "has_shape (fst t') ny nx \<and> has_shape (snd t') ny nx"
proof -
  obtain col v w s2 n2 s2' n2' where e: "c = (col, v, w)" "t = (s2, n2)" "t' = (s2', n2')"
    by (cases c; cases t; cases t') auto
  from assms(1) obtain n where a: "set2 s2 y col v = Some s2'"
    and b: "set2 n2 y col (n + w) = Some n2'"
    unfolding e by (auto simp: bind_eq_Some_conv)
  from set2_shape [OF a] set2_shape [OF b] assms(2,3) show ?thesis unfolding e by simp
qed

lemma cbca_step_2_loop:
  assumes "cbca_step_2 step1 cl cr rc rcr = Some (step2, sum2)"
  shows "for_loop (py_range 0 (int (nrows step1))) (\<lambda>y.
          for_loop (py_range 0 (int (length rc))) (\<lambda>x s.
            do { c \<leftarrow> step2_cell step1 cl cr rc rcr y x; step2_store y c s }))
          (fzeros (nrows step1) (ncols step1 - 1), zeros (nrows step1) (ncols step1 - 1)) =
        Some (step2, sum2)"
  using assms by (simp add: cbca_step_2_def Let_def split: if_splits)

lemma cbca_step_2_shape:
  assumes "cbca_step_2 step1 cl cr rc rcr = Some (step2, sum2)"
  shows "has_shape step2 (nrows step1) (ncols step1 - 1) \<and>
         has_shape sum2 (nrows step1) (ncols step1 - 1)"
proof -
  let ?P = "\<lambda>t::raster \<times> int list list. has_shape (fst t) (nrows step1) (ncols step1 - 1) \<and>
              has_shape (snd t) (nrows step1) (ncols step1 - 1)"
  have "?P (step2, sum2)"
  proof (rule nested_loops_inv [where P = ?P, OF cbca_step_2_loop [OF assms]])
    show "?P (fzeros (nrows step1) (ncols step1 - 1), zeros (nrows step1) (ncols step1 - 1))"
      by (simp add: has_shape_fzeros has_shape_zeros)
  next
    fix y x :: int and t t' :: "raster \<times> int list list"
    assume p: "?P t"
      and b: "do { c \<leftarrow> step2_cell step1 cl cr rc rcr y x; step2_store y c t } = Some t'"
    from b obtain c where "step2_store y c t = Some t'" by (auto simp: bind_eq_Some_conv)
    from step2_store_shape [OF this] p show "?P t'" by blast
  qed
  then show ?thesis by simp
qed

lemma cbca_step_3_shape:
  assumes "cbca_step_3 step2 = Some step3"
  shows "step2 \<noteq> [] \<and> has_shape step3 (nrows step2 + 1) (ncols step2)"
proof -
  let ?ny = "nrows step2" and ?nx = "ncols step2"
  from assms obtain row0 s0 where r: "py_get step2 0 = Some row0"
    and s: "py_set (fzeros (?ny + 1) ?nx) 0 row0 = Some s0"
    and l: "for_loop (py_range 1 (int ?ny)) (\<lambda>y.
             for_loop (py_range 0 (int ?nx)) (\<lambda>x step3.
               do { prev \<leftarrow> get2 step3 (y - 1) x;
                    c \<leftarrow> get2 step2 y x;
                    set2 step3 y x (fadd prev c) })) s0 = Some step3"
    unfolding cbca_step_3_def Let_def by (auto simp: bind_eq_Some_conv)
  from r have ne: "step2 \<noteq> []" and row0: "row0 = step2 ! 0"
    by (auto simp: py_get_def Let_def split: if_splits)
  from ne have len: "length row0 = ?nx"
    unfolding row0 by (cases step2) (simp_all add: ncols_def)
  from s have s0: "s0 = (fzeros (?ny + 1) ?nx)[0 := row0]"
    by (auto simp: py_set_def Let_def split: if_splits)
  have sh0: "has_shape s0 (?ny + 1) ?nx"
  proof -
    have "length (s0 ! i) = ?nx" if "i < ?ny + 1" for i
      using that len unfolding s0 fzeros_def by (cases i) simp_all
    then show ?thesis
      unfolding has_shape_def list_all_length by (simp add: s0 fzeros_def)
  qed
  have "has_shape step3 (?ny + 1) ?nx"
  proof (rule for_loop_inv [where P = "\<lambda>s. has_shape s (?ny + 1) ?nx", OF l sh0])
    fix y :: int and t t' :: raster
    assume p: "has_shape t (?ny + 1) ?nx"
      and i: "for_loop (py_range 0 (int ?nx)) (\<lambda>x step3.
               do { prev \<leftarrow> get2 step3 (y - 1) x;
                    c \<leftarrow> get2 step2 y x;
                    set2 step3 y x (fadd prev c) }) t = Some t'"
    show "has_shape t' (?ny + 1) ?nx"
    proof (rule for_loop_inv [where P = "\<lambda>s. has_shape s (?ny + 1) ?nx", OF i p])
      fix x :: int and u u' :: raster
      assume q: "has_shape u (?ny + 1) ?nx"
        and b: "do { prev \<leftarrow> get2 u (y - 1) x; c \<leftarrow> get2 step2 y x;
                     set2 u y x (fadd prev c) } = Some u'"
      from b obtain v where "set2 u y x v = Some u'" by (auto simp: bind_eq_Some_conv)
      from set2_shape [OF this q] show "has_shape u' (?ny + 1) ?nx" .
    qed
  qed
  with ne show ?thesis by simp
qed

lemma step4_store_shape:
  assumes "step4_store sum2 y c t = Some t'" and "has_shape (fst t) ny nx"
    and "has_shape (snd t) my mx"
  shows "has_shape (fst t') ny nx \<and> has_shape (snd t') my mx"
proof -
  obtain col v tp bt s4 n4 s4' n4' where e: "c = (col, v, tp, bt)" "t = (s4, n4)" "t' = (s4', n4')"
    by (cases c; cases t; cases t') auto
  from assms(1) obtain n a b where
    s: "set2 s4 y col v = Some s4'" and
    a: "set2 n4 y col (n + (tp + bt)) = Some a" and
    b: "(if tp \<noteq> 0
         then do { n \<leftarrow> get2 a y col; s \<leftarrow> sum_slice sum2 (y - tp) y col; set2 a y col (n + s) }
         else Some a) = Some b" and
    c: "(if bt \<noteq> 0
         then do { n \<leftarrow> get2 b y col; s \<leftarrow> sum_slice sum2 (y + 1) (y + bt + 1) col;
                   set2 b y col (n + s) }
         else Some b) = Some n4'"
    unfolding e by (auto simp: bind_eq_Some_conv)
  from set2_shape [OF a] assms(3) have sa: "has_shape a my mx" unfolding e by simp
  have sb: "has_shape b my mx"
  proof (cases "tp \<noteq> 0")
    case True
    with b obtain w where "set2 a y col w = Some b" by (auto simp: bind_eq_Some_conv)
    from set2_shape [OF this sa] show ?thesis .
  next
    case False
    with b sa show ?thesis by simp
  qed
  have sc: "has_shape n4' my mx"
  proof (cases "bt \<noteq> 0")
    case True
    with c obtain w where "set2 b y col w = Some n4'" by (auto simp: bind_eq_Some_conv)
    from set2_shape [OF this sb] show ?thesis .
  next
    case False
    with c sb show ?thesis by simp
  qed
  from set2_shape [OF s] assms(2) sc show ?thesis unfolding e by simp
qed

lemma cbca_step_4_loop:
  assumes "cbca_step_4 step3 sum2 cl cr rc rcr = Some (step4, sum4)"
  shows "for_loop (py_range 0 (int (nrows step3 - 1))) (\<lambda>y.
          for_loop (py_range 0 (int (length rc))) (\<lambda>x s.
            do { c \<leftarrow> step4_cell step3 cl cr rc rcr y x; step4_store sum2 y c s }))
          (fzeros (nrows step3 - 1) (ncols step3), sum2) = Some (step4, sum4)"
  using assms by (simp add: cbca_step_4_def Let_def split: if_splits)

lemma cbca_step_4_shape:
  assumes "cbca_step_4 step3 sum2 cl cr rc rcr = Some (step4, sum4)"
    and "has_shape sum2 my mx"
  shows "has_shape step4 (nrows step3 - 1) (ncols step3) \<and> has_shape sum4 my mx"
proof -
  let ?P = "\<lambda>t::raster \<times> int list list. has_shape (fst t) (nrows step3 - 1) (ncols step3) \<and>
              has_shape (snd t) my mx"
  have "?P (step4, sum4)"
  proof (rule nested_loops_inv [where P = ?P, OF cbca_step_4_loop [OF assms(1)]])
    show "?P (fzeros (nrows step3 - 1) (ncols step3), sum2)"
      using assms(2) by (simp add: has_shape_fzeros)
  next
    fix y x :: int and t t' :: "raster \<times> int list list"
    assume p: "?P t"
      and b: "do { c \<leftarrow> step4_cell step3 cl cr rc rcr y x; step4_store sum2 y c t } = Some t'"
    from b obtain c where "step4_store sum2 y c t = Some t'" by (auto simp: bind_eq_Some_conv)
    from step4_store_shape [OF this] p show "?P t'" by blast
  qed
  then show ?thesis by simp
qed

subsection \<open>The valid columns of a disparity\<close>

lemma valid_columns:
  "distinct (map int (valid_index nx dv w))"
  "\<forall>c \<in> set (map int (valid_index nx dv w)). 0 \<le> c"
  "int x \<in> set (map int (valid_index nx dv w)) \<longleftrightarrow>
     x < nx \<and> 0 \<le> real x + dv \<and> real x + dv < real w"
  by (auto simp: valid_index_def distinct_map inj_on_def)

subsection \<open>Cells outside the valid columns\<close>

lemma not_written:
  assumes "int x \<notin> set rc" and "\<forall>c \<in> set rc. 0 \<le> c" and "0 \<le> x'" and "x' < int (length rc)"
  shows "(y, x) \<noteq> (nat y', nat (rc ! nat x'))"
proof -
  from assms(3,4) have "rc ! nat x' \<in> set rc" by simp
  with assms(1,2) have "rc ! nat x' \<noteq> int x" "0 \<le> rc ! nat x'" by auto
  then show ?thesis by auto
qed

lemma step2_frame:
  assumes "cbca_step_2 step1 cl cr rc rcr = Some (step2, sum2)"
    and "\<forall>c \<in> set rc. 0 \<le> c" and "int x \<notin> set rc"
    and "y < nrows step1" and "x < ncols step1 - 1"
  shows "step2 ! y ! x = Num 0 \<and> sum2 ! y ! x = 0"
proof -
  let ?P = "\<lambda>t::raster \<times> int list list. fst t ! y ! x = Num 0 \<and> snd t ! y ! x = 0"
  have "?P (step2, sum2)"
  proof (rule nested_loops_inv [where P = ?P, OF cbca_step_2_loop [OF assms(1)]])
    show "?P (fzeros (nrows step1) (ncols step1 - 1), zeros (nrows step1) (ncols step1 - 1))"
      using assms(4,5) by (simp add: fzeros_def zeros_def)
  next
    fix y' x' :: int and t t' :: "raster \<times> int list list"
    assume r: "0 \<le> y'" "0 \<le> x'" "x' < int (length rc)" and p: "?P t"
      and b: "do { c \<leftarrow> step2_cell step1 cl cr rc rcr y' x'; step2_store y' c t } = Some t'"
    from step2_body_frame [OF b r(1,2) assms(2), of y x]
      not_written [OF assms(3,2) r(2,3), of y y'] p
    show "?P t'" by simp
  qed
  then show ?thesis by simp
qed

lemma step4_frame:
  assumes "cbca_step_4 step3 sum2 cl cr rc rcr = Some (step4, sum4)"
    and "\<forall>c \<in> set rc. 0 \<le> c" and "int x \<notin> set rc"
    and "y < nrows step3 - 1" and "x < ncols step3"
  shows "step4 ! y ! x = Num 0 \<and> sum4 ! y ! x = sum2 ! y ! x"
proof -
  let ?P = "\<lambda>t::raster \<times> int list list. fst t ! y ! x = Num 0 \<and> snd t ! y ! x = sum2 ! y ! x"
  have "?P (step4, sum4)"
  proof (rule nested_loops_inv [where P = ?P, OF cbca_step_4_loop [OF assms(1)]])
    show "?P (fzeros (nrows step3 - 1) (ncols step3), sum2)"
      using assms(4,5) by (simp add: fzeros_def)
  next
    fix y' x' :: int and t t' :: "raster \<times> int list list"
    assume r: "0 \<le> y'" "0 \<le> x'" "x' < int (length rc)" and p: "?P t"
      and b: "do { c \<leftarrow> step4_cell step3 cl cr rc rcr y' x'; step4_store sum2 y' c t } = Some t'"
    from step4_body_frame [OF b r(1,2) assms(2), of y x]
      not_written [OF assms(3,2) r(2,3), of y y'] p
    show "?P t'" by simp
  qed
  then show ?thesis by simp
qed

subsection \<open>Support counts are not negative\<close>

lemma upd2_list_all:
  assumes "list_all (list_all P) m" and "P v"
  shows "list_all (list_all P) (m[y := (m ! y)[x := v]])"
proof -
  have "P (m[y := (m ! y)[x := v]] ! i ! j)"
    if "i < length m" "j < length (m ! i)" for i j
  proof (cases "(i, j) = (y, x)")
    case True
    with that assms(2) show ?thesis by simp
  next
    case False
    from upd2_other [OF this, of m v] that assms(1) show ?thesis
      by (simp add: list_all_length)
  qed
  then show ?thesis
    unfolding list_all_length by (simp add: upd2_row_length del: nth_list_update_eq)
qed

lemma get3_list_all:
  assumes "list_all (list_all (list_all P)) t" and "get3 t y x k = Some a"
  shows "P a"
proof -
  from assms(2) obtain row p where "py_get t y = Some row" "py_get row x = Some p"
    "py_get p k = Some a"
    by (auto simp: get3_def bind_eq_Some_conv)
  then have "row \<in> set t" "p \<in> set row" "a \<in> set p" by (auto dest: py_get_in_set)
  with assms(1) show ?thesis by (auto simp: list_all_iff)
qed

lemma step2_nonneg:
  assumes "cbca_step_2 step1 cl cr rc rcr = Some (step2, sum2)"
    and nn: "\<forall>c \<in> set rc. 0 \<le> c"
    and cl: "list_all (list_all (list_all (\<lambda>a. 0 \<le> a))) cl"
    and cr: "list_all (list_all (list_all (\<lambda>a. 0 \<le> a))) cr"
  shows "list_all (list_all (\<lambda>n. 0 \<le> n)) sum2"
proof -
  let ?P = "\<lambda>t::raster \<times> int list list. list_all (list_all (\<lambda>n. 0 \<le> n)) (snd t)"
  have "?P (step2, sum2)"
  proof (rule nested_loops_inv [where P = ?P, OF cbca_step_2_loop [OF assms(1)]])
    show "?P (fzeros (nrows step1) (ncols step1 - 1), zeros (nrows step1) (ncols step1 - 1))"
      by (simp add: zeros_def list_all_length)
  next
    fix y x :: int and t t' :: "raster \<times> int list list"
    assume r: "0 \<le> y" "0 \<le> x" and p: "?P t"
      and b: "do { c \<leftarrow> step2_cell step1 cl cr rc rcr y x; step2_store y c t } = Some t'"
    from step2_body_effect [OF b r nn] obtain v w where
      c: "step2_cell step1 cl cr rc rcr y x = Some (rc ! nat x, v, w)" and
      i: "nat y < length (snd t)" "nat (rc ! nat x) < length (snd t ! nat y)" and
      u: "snd t' = (snd t)[nat y := (snd t ! nat y)
                      [nat (rc ! nat x) := snd t ! nat y ! nat (rc ! nat x) + w]]"
      by blast
    from step2_cell_SomeD [OF c] obtain col_right r1 r2 l1 l2 where
      g: "get3 cl y (rc ! nat x) 1 = Some r1" "get3 cr y col_right 1 = Some r2"
        "get3 cl y (rc ! nat x) 0 = Some l1" "get3 cr y col_right 0 = Some l2"
        "w = min r1 r2 + min l1 l2"
      by blast
    from get3_list_all [OF cl g(1)] get3_list_all [OF cr g(2)]
      get3_list_all [OF cl g(3)] get3_list_all [OF cr g(4)] g(5)
    have w: "0 \<le> w" by simp
    from p i have "0 \<le> snd t ! nat y ! nat (rc ! nat x)" by (simp add: list_all_length)
    with w have "0 \<le> snd t ! nat y ! nat (rc ! nat x) + w" by simp
    from upd2_list_all [OF p this] show "?P t'" unfolding u .
  qed
  then show ?thesis by simp
qed

lemma column_of_elems:
  "column_of rows x = Some vs \<Longrightarrow> \<forall>v \<in> set vs. \<exists>row \<in> set rows. v \<in> set row"
proof (induction rows arbitrary: vs)
  case Nil
  then show ?case by simp
next
  case (Cons row rows)
  from Cons.prems obtain v ws where v: "py_get row x = Some v"
    and ws: "column_of rows x = Some ws" and vs: "vs = v # ws"
    by (auto simp: bind_eq_Some_conv)
  from py_get_in_set [OF v] Cons.IH [OF ws] vs show ?case by auto
qed

lemma sum_slice_nonneg:
  assumes "list_all (list_all (\<lambda>n. 0 \<le> n)) m" and "sum_slice m a b x = Some s"
  shows "0 \<le> s"
proof -
  from assms(2) obtain vs where c: "column_of (py_slice m a b) x = Some vs" and s: "s = sum_list vs"
    by (auto simp: sum_slice_def)
  have "set (py_slice m a b) \<subseteq> set m"
    unfolding py_slice_def Let_def
    by (meson set_drop_subset set_take_subset subset_trans)
  with column_of_elems [OF c] assms(1) have "\<forall>v \<in> set vs. 0 \<le> v"
    by (fastforce simp: list_all_iff)
  then show ?thesis unfolding s by (simp add: sum_list_nonneg)
qed

lemma step4_nonneg:
  assumes "cbca_step_4 step3 sum2 cl cr rc rcr = Some (step4, sum4)"
    and nn: "\<forall>c \<in> set rc. 0 \<le> c"
    and cl: "list_all (list_all (list_all (\<lambda>a. 0 \<le> a))) cl"
    and cr: "list_all (list_all (list_all (\<lambda>a. 0 \<le> a))) cr"
    and s2: "list_all (list_all (\<lambda>n. 0 \<le> n)) sum2"
  shows "list_all (list_all (\<lambda>n. 0 \<le> n)) sum4"
proof -
  let ?P = "\<lambda>t::raster \<times> int list list. list_all (list_all (\<lambda>n. 0 \<le> n)) (snd t)"
  have "?P (step4, sum4)"
  proof (rule nested_loops_inv [where P = ?P, OF cbca_step_4_loop [OF assms(1)]])
    show "?P (fzeros (nrows step3 - 1) (ncols step3), sum2)"
      using s2 by simp
  next
    fix y x :: int and t t' :: "raster \<times> int list list"
    assume r: "0 \<le> y" "0 \<le> x" and p: "?P t"
      and b: "do { c \<leftarrow> step4_cell step3 cl cr rc rcr y x; step4_store sum2 y c t } = Some t'"
    from step4_body_effect [OF b r nn] obtain v tp bt T B where
      c: "step4_cell step3 cl cr rc rcr y x = Some (rc ! nat x, v, tp, bt)" and
      T: "if tp \<noteq> 0 then sum_slice sum2 (y - tp) y (rc ! nat x) = Some T else T = 0" and
      B: "if bt \<noteq> 0 then sum_slice sum2 (y + 1) (y + bt + 1) (rc ! nat x) = Some B else B = 0" and
      i: "nat y < length (snd t)" "nat (rc ! nat x) < length (snd t ! nat y)" and
      u: "snd t' = (snd t)[nat y := (snd t ! nat y)
            [nat (rc ! nat x) := snd t ! nat y ! nat (rc ! nat x) + (tp + bt) + T + B]]"
      by blast
    from step4_cell_SomeD [OF c] obtain col_right t1 t2 b1 b2 where
      g: "get3 cl y (rc ! nat x) 2 = Some t1" "get3 cr y col_right 2 = Some t2"
        "get3 cl y (rc ! nat x) 3 = Some b1" "get3 cr y col_right 3 = Some b2"
        "tp = min t1 t2" "bt = min b1 b2"
      by blast
    from get3_list_all [OF cl g(1)] get3_list_all [OF cr g(2)]
      get3_list_all [OF cl g(3)] get3_list_all [OF cr g(4)] g(5,6)
    have w: "0 \<le> tp" "0 \<le> bt" by simp_all
    from T sum_slice_nonneg [OF s2] have "0 \<le> T" by (cases "tp \<noteq> 0") auto
    moreover from B sum_slice_nonneg [OF s2] have "0 \<le> B" by (cases "bt \<noteq> 0") auto
    moreover from p i have "0 \<le> snd t ! nat y ! nat (rc ! nat x)" by (simp add: list_all_length)
    ultimately have "0 \<le> snd t ! nat y ! nat (rc ! nat x) + (tp + bt) + T + B"
      using w by simp
    from upd2_list_all [OF p this] show "?P t'" unfolding u .
  qed
  then show ?thesis by simp
qed

lemma arm_walk_fst_nonneg: "0 \<le> fst (arm_walk p a T is (0, pos))"
  using arm_walk_len [of p a T "is" 0 pos] by (cases "arm_walk p a T is (0, pos)") simp

lemma cross_pixel_nonneg: "list_all (\<lambda>a. 0 \<le> a) (cross_pixel img L T y x)"
proof (cases "isfinite (px img y x)")
  case True
  show ?thesis
    unfolding cross_pixel_finite [OF True]
    by (simp add: arm_walk_fst_nonneg le_max_iff_disj)
next
  case False
  then show ?thesis by (simp add: cross_pixel_def Let_def)
qed

lemma cross_support_nonneg:
  "list_all (list_all (list_all (\<lambda>a. 0 \<le> a))) (cross_support img L T)"
  using cross_pixel_nonneg [of img L T]
  by (simp add: cross_support_def list_all_iff)

subsection \<open>One disparity layer\<close>

lemma layer_dims: "nrows (layer data d) = nrows data" "ncols (layer data d) = ncols data"
  by (cases data; simp add: layer_def nrows_def ncols_def)+

lemma aggregate_layer_SomeD:
  assumes "aggregate_layer cl crs cv d = Some (step4, denom)"
  shows "\<exists>dv cr step1 step2 sum2 step3 sum4.
     py_get (disp cv) (int d) = Some dv \<and>
     cbca_step_1 (layer (cost_volume cv) d) = Some step1 \<and>
     py_get crs (trunc (frac dv * real_of_int (subpixel cv))) = Some cr \<and>
     cbca_step_2 step1 cl cr (map int (valid_index (ncols (cost_volume cv)) dv (ncols cr)))
       (map (\<lambda>col. trunc (real col + dv)) (valid_index (ncols (cost_volume cv)) dv (ncols cr))) =
       Some (step2, sum2) \<and>
     cbca_step_3 step2 = Some step3 \<and>
     cbca_step_4 step3 sum2 cl cr (map int (valid_index (ncols (cost_volume cv)) dv (ncols cr)))
       (map (\<lambda>col. trunc (real col + dv)) (valid_index (ncols (cost_volume cv)) dv (ncols cr))) =
       Some (step4, sum4) \<and>
     denom = map (map (\<lambda>n. n + 1)) sum4"
  using assms unfolding aggregate_layer_def Let_def
  by (auto simp: bind_eq_Some_conv)

lemma layer_shapes:
  assumes s1: "cbca_step_1 (layer data d) = Some step1"
    and s2: "cbca_step_2 step1 cl cr rc rcr = Some (step2, sum2)"
    and s3: "cbca_step_3 step2 = Some step3"
    and s4: "cbca_step_4 step3 sum2 cl cr rc rcr = Some (step4, sum4)"
  shows "0 < nrows data" and "nrows step1 = nrows data" and "ncols step1 = ncols data + 1"
    and "has_shape sum2 (nrows data) (ncols data)"
    and "nrows step3 = nrows data + 1" and "ncols step3 = ncols data"
    and "has_shape step4 (nrows data) (ncols data)"
    and "has_shape sum4 (nrows data) (ncols data)"
proof -
  let ?ny = "nrows data" and ?nx = "ncols data"
  from cbca_step_1_shape [OF s1] have h1: "has_shape step1 ?ny (?nx + 1)"
    by (simp add: layer_dims)
  then have n1: "nrows step1 = ?ny" by (simp add: has_shape_def nrows_def)
  from cbca_step_2_shape [OF s2] have h2: "has_shape step2 (nrows step1) (ncols step1 - 1)"
    "has_shape sum2 (nrows step1) (ncols step1 - 1)" by simp_all
  from cbca_step_3_shape [OF s3] have ne: "step2 \<noteq> []"
    and h3: "has_shape step3 (nrows step2 + 1) (ncols step2)" by simp_all
  from ne have "0 < length step2" by simp
  with h2(1) n1 show pos: "0 < ?ny" by (simp add: has_shape_def)
  show "nrows step1 = ?ny" by (rule n1)
  from has_shape_dims(2) [OF h1 pos] show c1: "ncols step1 = ?nx + 1" .
  from h2 n1 c1 have h2': "has_shape step2 ?ny ?nx" "has_shape sum2 ?ny ?nx" by simp_all
  then show "has_shape sum2 ?ny ?nx" by simp
  from has_shape_dims [OF h2'(1) pos] h3 have h3': "has_shape step3 (?ny + 1) ?nx" by simp
  from has_shape_dims [OF h3'] show d3: "nrows step3 = ?ny + 1" "ncols step3 = ?nx" by simp_all
  from cbca_step_4_shape [OF s4 h2'(2)] d3
  show "has_shape step4 ?ny ?nx" "has_shape sum4 ?ny ?nx" by simp_all
qed

lemma aggregate_layer_denominators:
  assumes "aggregate_layer cl crs cv d = Some (step4, denom)"
    and cl: "list_all (list_all (list_all (\<lambda>a. 0 \<le> a))) cl"
    and crs: "list_all (list_all (list_all (list_all (\<lambda>a. 0 \<le> a)))) crs"
  shows "has_shape denom (nrows (cost_volume cv)) (ncols (cost_volume cv)) \<and>
         list_all (list_all (\<lambda>n. 1 \<le> n)) denom"
proof -
  let ?data = "cost_volume cv"
  from aggregate_layer_SomeD [OF assms(1)] obtain dv cr step1 step2 sum2 step3 sum4 where
    f: "cbca_step_1 (layer ?data d) = Some step1"
      "py_get crs (trunc (frac dv * real_of_int (subpixel cv))) = Some cr"
      "cbca_step_2 step1 cl cr (map int (valid_index (ncols ?data) dv (ncols cr)))
       (map (\<lambda>col. trunc (real col + dv)) (valid_index (ncols ?data) dv (ncols cr))) =
       Some (step2, sum2)"
      "cbca_step_3 step2 = Some step3"
      "cbca_step_4 step3 sum2 cl cr (map int (valid_index (ncols ?data) dv (ncols cr)))
       (map (\<lambda>col. trunc (real col + dv)) (valid_index (ncols ?data) dv (ncols cr))) =
       Some (step4, sum4)"
      "denom = map (map (\<lambda>n. n + 1)) sum4"
    by blast
  from py_get_in_set [OF f(2)] crs have cr: "list_all (list_all (list_all (\<lambda>a. 0 \<le> a))) cr"
    by (simp add: list_all_iff)
  note nn = valid_columns(2) [of "ncols ?data" dv "ncols cr"]
  from step2_nonneg [OF f(3) nn cl cr] have "list_all (list_all (\<lambda>n. 0 \<le> n)) sum2" .
  from step4_nonneg [OF f(5) nn cl cr this] have p: "list_all (list_all (\<lambda>n. 0 \<le> n)) sum4" .
  from layer_shapes(8) [OF f(1) f(3) f(4) f(5)]
  have sh: "has_shape sum4 (nrows ?data) (ncols ?data)" .
  from sh have "has_shape denom (nrows ?data) (ncols ?data)"
    unfolding f(6) has_shape_def list_all_length by simp
  moreover from p have "list_all (list_all (\<lambda>n. 1 \<le> n)) denom"
    unfolding f(6) list_all_length by simp
  ultimately show ?thesis by simp
qed

lemma aggregate_layer_invalid_column:
  assumes "aggregate_layer cl crs cv d = Some (step4, denom)"
    and "py_get (disp cv) (int d) = Some dv"
    and "py_get crs (trunc (frac dv * real_of_int (subpixel cv))) = Some cr"
    and "\<not> (0 \<le> real x + dv \<and> real x + dv < real (ncols cr))"
    and "y < nrows (cost_volume cv)" and "x < ncols (cost_volume cv)"
  shows "step4 ! y ! x = Num 0 \<and> denom ! y ! x = 1"
proof -
  let ?data = "cost_volume cv"
  let ?rc = "map int (valid_index (ncols ?data) dv (ncols cr))"
  let ?rcr = "map (\<lambda>col. trunc (real col + dv)) (valid_index (ncols ?data) dv (ncols cr))"
  from aggregate_layer_SomeD [OF assms(1)] assms(2,3)
  obtain step1 step2 sum2 step3 sum4 where
    f: "cbca_step_1 (layer ?data d) = Some step1"
      "cbca_step_2 step1 cl cr ?rc ?rcr = Some (step2, sum2)"
      "cbca_step_3 step2 = Some step3"
      "cbca_step_4 step3 sum2 cl cr ?rc ?rcr = Some (step4, sum4)"
      "denom = map (map (\<lambda>n. n + 1)) sum4"
    by auto
  note sh = layer_shapes [OF f(1-4)]
  note nn = valid_columns(2) [of "ncols ?data" dv "ncols cr"]
  from assms(4) have out: "int x \<notin> set ?rc"
    unfolding valid_columns(3) by simp
  from step2_frame [OF f(2) nn out] assms(5,6) sh(2,3) have z2: "sum2 ! y ! x = 0" by simp
  from step4_frame [OF f(4) nn out] assms(5,6) sh(5,6)
  have z4: "step4 ! y ! x = Num 0" "sum4 ! y ! x = sum2 ! y ! x" by simp_all
  from sh(8) assms(5,6) have "y < length sum4" "x < length (sum4 ! y)"
    by (simp_all add: has_shape_def list_all_length)
  then have "denom ! y ! x = sum4 ! y ! x + 1" unfolding f(5) by simp
  with z2 z4 show ?thesis by simp
qed

subsection \<open>The normalisation denominators\<close>

lemma layer_example:
  "aggregate_layer (cross_support [[Num 1, Num 2]] 5 (Num 30))
     (map (\<lambda>r. cross_support r 5 (Num 30)) [[[Num 1, Num 2]]])
     \<lparr>cost_volume = [[[NaN, Num 4], [Num 6, Num 8]]], disp = [0, 1], subpixel = 1, cmax = 1,
      aggregation = ''none''\<rparr> 0 = Some ([[Num 6, Num 6]], [[2, 2]])"
  by (simp add: eval_defs upto_rec1)

text \<open>
  C10: for every disparity layer, the denominators of the final division (the support
  count \<open>sum4\<close> plus 1 for the anchor), computed from the cross supports that
  \<open>cross_support\<close> returns for the left raster and the right rasters, cover every
  pixel of the layer (they have the shape of the layer) and are all at least 1, the
  pixels outside the valid columns included: no division is by zero.
\<close>

theorem denominators_at_least_one:
  assumes "aggregate_layer (cross_support left_masked len_arms intensity)
             (map (\<lambda>r. cross_support r len_arms intensity) right_masked) cv d =
           Some (step4, denom)"
  shows "has_shape denom (nrows (cost_volume cv)) (ncols (cost_volume cv)) \<and>
         list_all (list_all (\<lambda>n. 1 \<le> n)) denom"
proof (rule aggregate_layer_denominators [OF assms])
  show "list_all (list_all (list_all (\<lambda>a. 0 \<le> a))) (cross_support left_masked len_arms intensity)"
    by (rule cross_support_nonneg)
  show "list_all (list_all (list_all (list_all (\<lambda>a. 0 \<le> a))))
          (map (\<lambda>r. cross_support r len_arms intensity) right_masked)"
    by (simp add: list_all_iff cross_support_nonneg [unfolded list_all_iff])
qed

theorem denominators_at_least_one_witness:
  "aggregate_layer (cross_support [[Num 1, Num 2]] 5 (Num 30))
     (map (\<lambda>r. cross_support r 5 (Num 30)) [[[Num 1, Num 2]]])
     \<lparr>cost_volume = [[[NaN, Num 4], [Num 6, Num 8]]], disp = [0, 1], subpixel = 1, cmax = 1,
      aggregation = ''none''\<rparr> 0 = Some ([[Num 6, Num 6]], [[2, 2]]) \<and>
   has_shape [[2, 2 :: int]] 1 2 \<and> list_all (list_all (\<lambda>n. 1 \<le> n)) [[2, 2 :: int]]"
  using denominators_at_least_one [OF layer_example] layer_example
  by (simp add: nrows_def ncols_def has_shape_def)

subsection \<open>Cells outside the valid columns of their disparity\<close>

lemma fin_cases: "fdiv (fadd (fmul (fadd (Num 0) c) (Num 0)) (Num 0)) (Num (real_of_int 1)) =
         (if isfinite c then Num 0 else NaN)"
  by (cases c) (simp_all add: finf_def)

lemma aggregate_all_invalid_column:
  assumes "aggregate_all cl crs distance cv = Some cv'"
    and "y < nrows (cost_volume cv)" and "x < ncols (cost_volume cv)"
    and "d < nb_disp (cost_volume cv)"
    and "py_get (disp cv) (int d) = Some dv"
    and "py_get crs (trunc (frac dv * real_of_int (subpixel cv))) = Some cr"
    and "\<not> (0 \<le> real x + dv \<and> real x + dv < real (ncols cr))"
  shows "cost_volume cv' ! y ! x ! d =
           (if isfinite (cost_volume cv ! y ! x ! d) then Num 0 else NaN)"
proof -
  let ?data = "cost_volume cv"
  let ?ny = "nrows ?data" and ?nx = "ncols ?data" and ?nd = "nb_disp ?data"
  let ?agg0 = "map (\<lambda>d. map (\<lambda>x. map (\<lambda>y.
                  fmul (fadd (Num 0) (?data ! y ! x ! d)) (Num 0)) [0 ..< ?ny]) [0 ..< ?nx]) [0 ..< ?nd]"
  let ?body = "\<lambda>d agg.
          do { (step4, sum4) \<leftarrow> aggregate_layer cl crs cv d;
               let added = map (\<lambda>x. map (\<lambda>y. fadd (agg ! d ! x ! y) (step4 ! y ! x))
                                  [0 ..< ?ny]) [0 ..< ?nx];
               let normed = map (\<lambda>x. map (\<lambda>y. fdiv (added ! x ! y)
                                             (Num (real_of_int (sum4 ! y ! x))))
                                  [0 ..< ?ny]) [0 ..< ?nx];
               Some (agg[d := normed]) }"
  let ?c = "?data ! y ! x ! d"
  let ?Z = "\<lambda>agg. length agg = ?nd \<and> agg ! d ! x ! y = fmul (fadd (Num 0) ?c) (Num 0)"
  let ?Q = "\<lambda>agg. length agg = ?nd \<and> agg ! d ! x ! y = (if isfinite ?c then Num 0 else NaN)"
  from assms(1) obtain agg where loop: "for_loop [0 ..< ?nd] ?body ?agg0 = Some agg"
    and out: "cost_volume cv' = map (\<lambda>y. map (\<lambda>x. map (\<lambda>d. agg ! d ! x ! y)
                                     [0 ..< ?nd]) [0 ..< ?nx]) [0 ..< ?ny]"
    by (auto simp: aggregate_all_def Let_def bind_eq_Some_conv)
  have upd: "\<exists>step4 sum4. aggregate_layer cl crs cv i = Some (step4, sum4) \<and>
      t' = t[i := map (\<lambda>x. map (\<lambda>y. fdiv
            (map (\<lambda>x. map (\<lambda>y. fadd (t ! i ! x ! y) (step4 ! y ! x)) [0 ..< ?ny]) [0 ..< ?nx] ! x ! y)
            (Num (real_of_int (sum4 ! y ! x)))) [0 ..< ?ny]) [0 ..< ?nx]]"
    if "?body i t = Some t'" for i t t'
    using that by (auto simp: Let_def bind_eq_Some_conv)
  have din: "d \<in> set [0 ..< ?nd]" using assms(4) by simp
  have init: "?Z ?agg0" using assms(2-4) by simp
  have "?Q agg"
  proof (rule for_loop_write [where Z = ?Z and Q = ?Q, OF loop din distinct_upt init])
    fix t t' assume z: "?Z t" and b: "?body d t = Some t'"
    from upd [OF b] obtain step4 sum4 where
      l: "aggregate_layer cl crs cv d = Some (step4, sum4)" and
      u: "t' = t[d := map (\<lambda>x. map (\<lambda>y. fdiv
            (map (\<lambda>x. map (\<lambda>y. fadd (t ! d ! x ! y) (step4 ! y ! x)) [0 ..< ?ny]) [0 ..< ?nx] ! x ! y)
            (Num (real_of_int (sum4 ! y ! x)))) [0 ..< ?ny]) [0 ..< ?nx]]"
      by blast
    from aggregate_layer_invalid_column [OF l assms(5,6,7,2,3)]
    have v: "step4 ! y ! x = Num 0" "sum4 ! y ! x = 1" by simp_all
    from z assms(4) have "t' ! d ! x ! y =
        fdiv (fadd (fmul (fadd (Num 0) ?c) (Num 0)) (Num 0)) (Num (real_of_int 1))"
      unfolding u using assms(2,3) v by simp
    with z show "?Q t'" unfolding fin_cases by (simp add: u)
  next
    fix j t t' assume "j \<in> set [0 ..< ?nd]" "j \<noteq> d" "?Z t" "?body j t = Some t'"
    with upd [of j t t'] show "?Z t'" by auto
  next
    fix j t t' assume "j \<in> set [0 ..< ?nd]" "j \<noteq> d" "?Q t" "?body j t = Some t'"
    with upd [of j t t'] show "?Q t'" by auto
  qed
  with assms(2-4) show ?thesis by (simp add: out)
qed

text \<open>
  C1, as the code has it: a cell \<open>(row, col, d)\<close> whose column is outside the valid
  columns of the disparity \<open>d\<close> (\<open>col + d\<close> is not a column of the right cross
  support) is not written by the four passes; after \<open>cost_volume_aggregation\<close> it
  holds 0 when its input cost was finite and NaN otherwise. The output starts as
  \<open>(0 + cost) * 0\<close>, not as the cost, so a finite cost is not retained.
\<close>

theorem invalid_column_cell:
  assumes "cost_volume_aggregation self left_masked right_masked cv = Some cv'"
    and "y < nrows (cost_volume cv)" and "x < ncols (cost_volume cv)"
    and "d < nb_disp (cost_volume cv)"
    and "py_get (disp cv) (int d) = Some dv"
    and "py_get (map (\<lambda>r. cross_support r (cbca_distance self) (cbca_intensity self))
                  right_masked)
           (trunc (frac dv * real_of_int (subpixel cv))) = Some cr"
    and "\<not> (0 \<le> real x + dv \<and> real x + dv < real (ncols cr))"
  shows "cost_volume cv' ! y ! x ! d =
           (if isfinite (cost_volume cv ! y ! x ! d) then Num 0 else NaN)"
  using assms(1) unfolding cost_volume_aggregation_def Let_def
  by (rule aggregate_all_invalid_column [OF _ assms(2-7)])

theorem invalid_column_cell_witness:
  "cost_volume_aggregation \<lparr>cfg = [], cbca_intensity = Num 30, cbca_distance = 5\<rparr>
     [[Num 1, Num 2]] [[[Num 1, Num 2]]]
     \<lparr>cost_volume = [[[NaN, Num 4], [Num 6, Num 8]]], disp = [0, 1], subpixel = 1, cmax = 1,
      aggregation = ''none''\<rparr> =
   Some \<lparr>cost_volume = [[[NaN, Num 4], [Num 3, Num 0]]], disp = [0, 1], subpixel = 1,
      cmax = 81, aggregation = ''cbca''\<rparr> \<and>
   py_get [0, 1 :: real] (int 1) = Some 1 \<and>
   \<not> (0 \<le> real 1 + 1 \<and> real 1 + 1 < real (ncols (cross_support [[Num 1, Num 2]] 5 (Num 30)))) \<and>
   isfinite ([[[NaN, Num 4], [Num 6, Num 8]]] ! 0 ! 1 ! 1) \<and>
   [[[NaN, Num 4], [Num 3, Num 0]]] ! 0 ! 1 ! 1 = Num 0"
proof -
  let ?cv = "\<lparr>cost_volume = [[[NaN, Num 4], [Num 6, Num 8]]], disp = [0, 1], subpixel = 1,
      cmax = 1, aggregation = ''none''\<rparr>"
  let ?self = "\<lparr>cfg = [], cbca_intensity = Num 30, cbca_distance = 5\<rparr>"
  have h: "(0::nat) < nrows (cost_volume ?cv)" "(1::nat) < ncols (cost_volume ?cv)"
    "(1::nat) < nb_disp (cost_volume ?cv)"
    "py_get (disp ?cv) (int 1) = Some 1"
    "py_get (map (\<lambda>r. cross_support r (cbca_distance ?self) (cbca_intensity ?self))
                  [[[Num 1, Num 2]]])
           (trunc (frac 1 * real_of_int (subpixel ?cv))) =
       Some (cross_support [[Num 1, Num 2]] 5 (Num 30))"
    "\<not> (0 \<le> real 1 + 1 \<and>
        real 1 + 1 < real (ncols (cross_support [[Num 1, Num 2]] 5 (Num 30))))"
    by (simp_all add: nrows_def ncols_def nb_disp_def py_get_def trunc_def cross_support_def)
  from invalid_column_cell [OF aggregation_example h] aggregation_example h(4,6)
  show ?thesis by simp
qed

text \<open>
  At disparity 1 the column 1 of a raster two columns wide has no counterpart; its
  cost 8 is 0 after the aggregation.
\<close>

theorem invalid_column_retains_cost_counterexample:
  "cost_volume_aggregation \<lparr>cfg = [], cbca_intensity = Num 30, cbca_distance = 5\<rparr>
     [[Num 1, Num 2]] [[[Num 1, Num 2]]]
     \<lparr>cost_volume = [[[NaN, Num 4], [Num 6, Num 8]]], disp = [0, 1], subpixel = 1, cmax = 1,
      aggregation = ''none''\<rparr> =
   Some \<lparr>cost_volume = [[[NaN, Num 4], [Num 3, Num 0]]], disp = [0, 1], subpixel = 1,
      cmax = 81, aggregation = ''cbca''\<rparr> \<and>
   \<not> (real 1 + 1 < real (ncols (cross_support [[Num 1, Num 2]] 5 (Num 30)))) \<and>
   [[[NaN, Num 4], [Num 3, Num 0]]] ! 0 ! 1 ! 1 \<noteq> [[[NaN, Num 4], [Num 6, Num 8]]] ! 0 ! 1 ! 1"
  using aggregation_example by (simp add: ncols_def cross_support_def nrows_def)

subsection \<open>Arms stay inside the raster\<close>

text \<open>
  Every arm returned by \<open>cross_support\<close> is bounded by the distance of its pixel to
  the border in its direction, for every maximal arm length: the combined arms of
  steps 2 and 4 never leave the arrays.
\<close>

lemma arm_walk_fst_le: "fst (arm_walk p a T is (0, pos)) \<le> int (length is)"
  using arm_walk_len [of p a T "is" 0 pos] by (cases "arm_walk p a T is (0, pos)") simp

lemma arm_down_border:
  assumes "0 \<le> x"
  shows "max (fst (arm_walk p a T (py_range_down (x - 1) (max (x - L) (- 1))) (0, x)))
             (1 * b2i (x \<ge> 1) * b2i c) \<le> x"
proof -
  have "fst (arm_walk p a T (py_range_down (x - 1) (max (x - L) (- 1))) (0, x)) \<le>
        int (length (py_range_down (x - 1) (max (x - L) (- 1))))"
    by (rule arm_walk_fst_le)
  also have "\<dots> \<le> x" using assms by (auto simp: length_py_range_down)
  finally show ?thesis using assms by (simp add: b2i_def)
qed

lemma arm_up_border:
  assumes "x < n"
  shows "max (fst (arm_walk p a T (py_range (x + 1) (min (x + L) n)) (0, x)))
             (1 * b2i (x < n - 1) * b2i c) \<le> n - 1 - x"
proof -
  have "fst (arm_walk p a T (py_range (x + 1) (min (x + L) n)) (0, x)) \<le>
        int (length (py_range (x + 1) (min (x + L) n)))"
    by (rule arm_walk_fst_le)
  also have "\<dots> \<le> n - 1 - x" using assms by (auto simp: length_py_range)
  finally show ?thesis using assms by (simp add: b2i_def)
qed

lemma cross_support_border:
  assumes "y < nrows img" and "x < ncols img"
  shows "cross_support img L T ! y ! x ! 0 \<le> int x \<and>
         cross_support img L T ! y ! x ! 1 \<le> int (ncols img) - 1 - int x \<and>
         cross_support img L T ! y ! x ! 2 \<le> int y \<and>
         cross_support img L T ! y ! x ! 3 \<le> int (nrows img) - 1 - int y"
proof -
  have eq: "cross_support img L T ! y ! x = cross_pixel img L T (int y) (int x)"
    using assms by (rule cross_support_nth)
  have r: "0 \<le> int x" "int x < int (ncols img)" "0 \<le> int y" "int y < int (nrows img)"
    using assms by simp_all
  show ?thesis
  proof (cases "isfinite (px img (int y) (int x))")
    case True
    show ?thesis
      unfolding eq cross_pixel_finite [OF True, of L T]
      using arm_down_border [OF r(1)] arm_up_border [OF r(2)]
        arm_down_border [OF r(3)] arm_up_border [OF r(4)]
      by simp
  next
    case False
    then have "cross_pixel img L T (int y) (int x) = [0, 0, 0, 0]"
      by (simp add: cross_pixel_def Let_def)
    with assms show ?thesis unfolding eq by simp
  qed
qed

end
